theory Spec2Isabelle
  imports Main
begin

section \<open>Values, faults and settled promises\<close>

text \<open>
  A JavaScript value as far as its truthiness goes: \<open>undefined\<close>, \<open>null\<close>, a boolean,
  a number, a string, or an object (an \<open>ExecException\<close> is an object; the string is its
  message).
\<close>

datatype js_value = JUndefined | JNull | JBool bool | JNum int | JStr string | JObj string

fun truthy :: "js_value \<Rightarrow> bool" where
  "truthy JUndefined = False"
| "truthy JNull = False"
| "truthy (JBool b) = b"
| "truthy (JNum n) = (n \<noteq> 0)"
| "truthy (JStr s) = (s \<noteq> [])"
| "truthy (JObj m) = True"

text \<open>What a \<open>throw\<close> or a rejected promise carries.\<close>

datatype fault = TypeError | Thrown string

text \<open>A promise that has settled: fulfilled with a value or rejected with a reason.\<close>

datatype 'r settled = Fulfilled 'r | Rejected fault

text \<open>
  \<open>ExecAsyncResult\<close> is declared in \<open>./utils\<close>; of its fields the code here reads only
  \<open>error\<close>, the error indicator of the executed command.
\<close>

record ExecAsyncResult =
  error :: js_value
  stdout :: string
  stderr :: string

section \<open>Package\<close>

text \<open>
  The part of \<open>IPackage\<close> the class reads. The object comes from \<open>require\<close> of a
  package.json, so the \<open>scripts\<close> field can be missing at run time: \<open>None\<close>.
\<close>

record IPackage =
  json_name :: string
  json_version :: string
  json_scripts :: "(string \<rightharpoonup> string) option"

text \<open>The private fields \<open>_matched\<close> and \<open>_markForBuild\<close> are \<open>u_matched\<close> and \<open>u_markForBuild\<close>.\<close>

record Package =
  packageJsonFileName :: string
  packageJson :: IPackage
  packageId :: nat
  u_matched :: bool
  u_markForBuild :: bool

text \<open>
  The constructor: \<open>packageId = Package.packageCount++\<close>, both flags false. The static
  counter is passed in and returned; the manifest that \<open>require\<close> reads is an argument.
\<close>

definition Package_new :: "nat \<Rightarrow> string \<Rightarrow> IPackage \<Rightarrow> Package \<times> nat" where
  "Package_new packageCount fileName manifest =
     (\<lparr>packageJsonFileName = fileName, packageJson = manifest, packageId = packageCount,
       u_matched = False, u_markForBuild = False\<rparr>, packageCount + 1)"

definition name :: "Package \<Rightarrow> string" where
  "name pkg = json_name (packageJson pkg)"

text \<open>
  \<open>chalkColor\<close> is a table of 15 colouring functions of the chalk library, here a
  parameter \<open>chalk\<close> from the table index to the function.
\<close>

definition color :: "(nat \<Rightarrow> string \<Rightarrow> string) \<Rightarrow> Package \<Rightarrow> string \<Rightarrow> string" where
  "color chalk pkg = chalk (packageId pkg mod 15)"

definition nameColored :: "(nat \<Rightarrow> string \<Rightarrow> string) \<Rightarrow> Package \<Rightarrow> string" where
  "nameColored chalk pkg = color chalk pkg (name pkg)"

definition version :: "Package \<Rightarrow> string" where
  "version pkg = json_version (packageJson pkg)"

definition matched :: "Package \<Rightarrow> bool" where
  "matched pkg = u_matched pkg"

definition setMatched :: "Package \<Rightarrow> Package" where
  "setMatched pkg = pkg\<lparr>u_matched := True, u_markForBuild := True\<rparr>"

definition markForBuild :: "Package \<Rightarrow> bool" where
  "markForBuild pkg = u_markForBuild pkg"

definition setMarkForBuild :: "Package \<Rightarrow> Package" where
  "setMarkForBuild pkg = pkg\<lparr>u_markForBuild := True\<rparr>"

text \<open>
  What reading a property of the scripts object gives: \<open>undefined\<close>, the command of an
  own key, or a member inherited from \<open>Object.prototype\<close> (a function; for \<open>__proto__\<close>
  the prototype itself), named by its key.
\<close>

datatype property_value = Undefined | Own string | Inherited string

text \<open>
  The keys of \<open>Object.prototype\<close>, which every object that \<open>require\<close> reads from a JSON
  file inherits.
\<close>

definition Object_prototype :: "string list" where
  "Object_prototype =
     [''constructor'', ''hasOwnProperty'', ''isPrototypeOf'', ''propertyIsEnumerable'',
      ''toLocaleString'', ''toString'', ''valueOf'', ''__proto__'', ''__defineGetter__'',
      ''__defineSetter__'', ''__lookupGetter__'', ''__lookupSetter__'']"

text \<open>
  \<open>this.packageJson.scripts[name]\<close>: a property read on \<open>undefined\<close> throws a TypeError;
  on an object it gives the entry of an own key, else the inherited member of that name,
  else \<open>undefined\<close>.
\<close>

definition getScript :: "Package \<Rightarrow> string \<Rightarrow> fault + property_value" where
  "getScript pkg script =
     (case json_scripts (packageJson pkg) of
        None \<Rightarrow> Inl TypeError
      | Some scripts \<Rightarrow>
          (case scripts script of
             Some command \<Rightarrow> Inr (Own command)
           | None \<Rightarrow>
               if script \<in> set Object_prototype then Inr (Inherited script)
               else Inr Undefined))"

text \<open>
  The public methods of the class, and what a call does to the object. The two flags are
  private, so a sequence of calls is all that can happen to them; the methods other than
  the two setters write no field.
\<close>

datatype member = SetMatched | SetMarkForBuild | GetScript string
  | CleanNodeModules | SavePackageJson | NoHoistInstall string

fun call :: "member \<Rightarrow> Package \<Rightarrow> Package" where
  "call SetMatched pkg = setMatched pkg"
| "call SetMarkForBuild pkg = setMarkForBuild pkg"
| "call (GetScript script) pkg = pkg"
| "call CleanNodeModules pkg = pkg"
| "call SavePackageJson pkg = pkg"
| "call (NoHoistInstall repoRoot) pkg = pkg"

fun calls :: "member list \<Rightarrow> Package \<Rightarrow> Package" where
  "calls [] pkg = pkg"
| "calls (m # ms) pkg = calls ms (call m pkg)"

section \<open>The verdict over a list of results\<close>

text \<open>\<open>Array.prototype.some\<close>: true at the first element the predicate accepts.\<close>

fun some :: "('a \<Rightarrow> bool) \<Rightarrow> 'a list \<Rightarrow> bool" where
  "some f [] = False"
| "some f (x # xs) = (if f x then True else some f xs)"

text \<open>
  \<open>!results.some(result => result.error)\<close>, the last line of \<open>Packages.clean\<close> and of
  \<open>Packages.queueExecOnAllPackage\<close>.
\<close>

definition verdict :: "ExecAsyncResult list \<Rightarrow> bool" where
  "verdict results = (\<not> some (\<lambda>result. truthy (error result)) results)"

section \<open>Status lines\<close>

text \<open>
  What one call of \<open>logStatus\<close> is given, by the holes of its template literal
  \<open>[${++numDone}/${p.length}] ${label} - ${elapsedTime.toFixed(3)}s\<close>: the completion
  index, the length of the promise array, the label, and the elapsed time. \<open>Date.now()\<close>
  is a whole number of milliseconds, so the elapsed time is kept as the difference of two
  readings, an integer number of milliseconds.
\<close>

record status_line =
  sl_index :: nat
  sl_total :: nat
  sl_label :: string
  sl_elapsed :: int

definition digit :: "nat \<Rightarrow> char" where
  "digit d = ''0123456789'' ! (d mod 10)"

text \<open>A non-negative whole number in a template literal: its decimal digits.\<close>

fun show_nat :: "nat \<Rightarrow> string" where
  "show_nat n = (if n < 10 then [digit n] else show_nat (n div 10) @ [digit n])"

declare show_nat.simps [simp del]

text \<open>
  \<open>(ms / 1000).toFixed(3)\<close> for a whole number \<open>ms\<close> of milliseconds. \<open>toFixed(3)\<close>
  prints the integer \<open>n\<close> for which \<open>n / 1000\<close> is nearest to its argument, with a point
  before the last three digits and a minus sign for a negative argument; the argument is
  the double nearest to \<open>ms / 1000\<close>, so that \<open>n\<close> is \<open>ms\<close> (in magnitude) for every
  difference of two clock readings.
\<close>

definition toFixed3 :: "int \<Rightarrow> string" where
  "toFixed3 ms =
     (if ms < 0 then ''-'' else []) @ show_nat (nat \<bar>ms\<bar> div 1000) @ ''.'' @
     [digit (nat \<bar>ms\<bar> div 100), digit (nat \<bar>ms\<bar> div 10), digit (nat \<bar>ms\<bar>)]"

definition format_status :: "status_line \<Rightarrow> string" where
  "format_status l =
     ''['' @ show_nat (sl_index l) @ ''/'' @ show_nat (sl_total l) @ ''] '' @ sl_label l @
     '' - '' @ toFixed3 (sl_elapsed l) @ ''s''"

text \<open>
  The completion counter \<open>numDone\<close> and the calls of \<open>logStatus\<close> made so far, oldest
  first. The text written for a call is \<open>format_status\<close> of its entry.
\<close>

record progress =
  numDone :: nat
  logged :: "status_line list"

section \<open>Promise.all\<close>

text \<open>A promise is \<open>None\<close> while pending and \<open>Some\<close> of its outcome once settled.\<close>

fun first_rejection :: "'r settled option list \<Rightarrow> fault option" where
  "first_rejection [] = None"
| "first_rejection (Some (Rejected e) # ps) = Some e"
| "first_rejection (x # ps) = first_rejection ps"

fun fulfilled_values :: "'r settled option list \<Rightarrow> 'r list option" where
  "fulfilled_values [] = Some []"
| "fulfilled_values (Some (Fulfilled r) # ps) = map_option ((#) r) (fulfilled_values ps)"
| "fulfilled_values (x # ps) = None"

text \<open>
  The promise of \<open>Promise.all(ps)\<close>, given its state \<open>prior\<close> and the promises as they
  are now: once settled it stays as it is; otherwise it rejects with the reason of a
  rejected promise, fulfils with the array of values (in the order of \<open>ps\<close>) when every
  promise is fulfilled, and is pending else. It is looked at after every settlement, so a
  rejection it finds is the first one.
\<close>

definition Promise_all :: "'r list settled option \<Rightarrow> 'r settled option list \<Rightarrow> 'r list settled option" where
  "Promise_all prior ps =
     (case prior of
        Some outcome \<Rightarrow> Some outcome
      | None \<Rightarrow>
          (case first_rejection ps of
             Some e \<Rightarrow> Some (Rejected e)
           | None \<Rightarrow> map_option Fulfilled (fulfilled_values ps)))"

section \<open>queueExec\<close>

text \<open>
  The state of one call of \<open>queueExec\<close>:
  \<^item> \<open>tasks\<close>: the backlog of the queue \<open>q\<close>, the \<open>TaskExec\<close> records pushed and not yet
    started, oldest first; the closures \<open>resolve\<close> and \<open>reject\<close> of a record are the
    index in \<open>p\<close> of the promise they settle;
  \<^item> \<open>workers\<close>: the tasks in flight, each with the \<open>startTime\<close> read by \<open>timedExec\<close>;
  \<^item> \<open>promises\<close>: the array \<open>p\<close>;
  \<^item> \<open>all_p\<close>: the promise \<open>Promise.all(p)\<close> that \<open>queueExec\<close> returns;
  \<^item> \<open>started\<close>: the indices of the tasks in the order the queue started them, a record
    of what has happened that no code reads.
\<close>

record ('i, 'r) queue_state = progress +
  tasks :: "('i \<times> nat) list"
  workers :: "('i \<times> nat \<times> int) list"
  promises :: "'r settled option list"
  all_p :: "'r list settled option"
  started :: "nat list"

text \<open>
  \<open>timedExec\<close> from the call of the operation to its return. Without a message callback
  it is \<open>exec\<close> itself. With one, \<open>await exec(item)\<close> throws when the operation rejects,
  and otherwise the counter is incremented, the status line is logged and the result
  returned. \<open>now\<close> is the clock when the operation has settled. The operation
  \<open>exec\<close> is the function from an item to the outcome its promise settles with (a
  synchronous throw is a rejection too: \<open>timedExec\<close> is called under \<open>await\<close> in a
  \<open>try\<close> block).
\<close>

definition timedExec ::
  "('i \<Rightarrow> 'r settled) \<Rightarrow> ('i \<Rightarrow> string) option \<Rightarrow> 'i \<Rightarrow> int \<Rightarrow> int \<Rightarrow>
   ('i, 'r) queue_state \<Rightarrow> 'r settled \<times> ('i, 'r) queue_state" where
  "timedExec exec messageCallback item startTime now s =
     (case messageCallback of
        None \<Rightarrow> (exec item, s)
      | Some label \<Rightarrow>
          (case exec item of
             Rejected e \<Rightarrow> (Rejected e, s)
           | Fulfilled result \<Rightarrow>
               (Fulfilled result,
                s\<lparr>numDone := numDone s + 1,
                  logged := logged s @
                    [\<lparr>sl_index = numDone s + 1, sl_total = length (promises s),
                      sl_label = label item, sl_elapsed = now - startTime\<rparr>]\<rparr>)))"

text \<open>
  The rest of the queue's worker once \<open>timedExec\<close> has returned or thrown: the promise
  of the task is resolved or rejected with the outcome, and \<open>callback()\<close> frees the lane.
\<close>

definition worker_done :: "nat \<Rightarrow> 'r settled \<Rightarrow> ('i, 'r) queue_state \<Rightarrow> ('i, 'r) queue_state" where
  "worker_done slot outcome s =
     s\<lparr>workers := filter (\<lambda>w. fst (snd w) \<noteq> slot) (workers s),
       promises := (promises s)[slot := Some outcome],
       all_p := Promise_all (all_p s) ((promises s)[slot := Some outcome])\<rparr>"

text \<open>
  Modelled from the spec: \<open>queue\<close> of the package \<open>async\<close> is not under src/. By the
  spec's concurrency policy the queue has \<open>K\<close> lanes (\<open>K = options.concurrency\<close>); when a
  lane is free it pulls the next unstarted task of its single backlog and begins it, and
  the completion of a task frees its lane. The two events of a run:
  \<^item> \<open>Process now\<close>: a lane is free and the backlog is not empty; the task at its head is
    started (the clock reads \<open>now\<close>);
  \<^item> \<open>Settle slot now\<close>: the operation of the task in flight for promise \<open>slot\<close> settles
    (the clock reads \<open>now\<close>), and the worker runs to its end.
  \<open>step\<close> is \<open>None\<close> for an event that cannot happen in the state. Operations settle in
  any order: every order of events that \<open>step\<close> accepts is a run.
\<close>

datatype event = Process int | Settle nat int

fun step ::
  "nat \<Rightarrow> ('i \<Rightarrow> 'r settled) \<Rightarrow> ('i \<Rightarrow> string) option \<Rightarrow> event \<Rightarrow>
   ('i, 'r) queue_state \<Rightarrow> ('i, 'r) queue_state option" where
  "step K exec messageCallback (Process now) s =
     (case tasks s of
        [] \<Rightarrow> None
      | (item, slot) # rest \<Rightarrow>
          if length (workers s) < K
          then Some (s\<lparr>tasks := rest, workers := workers s @ [(item, slot, now)],
                      started := started s @ [slot]\<rparr>)
          else None)"
| "step K exec messageCallback (Settle slot now) s =
     (case find (\<lambda>w. fst (snd w) = slot) (workers s) of
        None \<Rightarrow> None
      | Some (item, slot', startTime) \<Rightarrow>
          (case timedExec exec messageCallback item startTime now s of
             (outcome, s') \<Rightarrow> Some (worker_done slot outcome s')))"

fun run ::
  "nat \<Rightarrow> ('i \<Rightarrow> 'r settled) \<Rightarrow> ('i \<Rightarrow> string) option \<Rightarrow> event list \<Rightarrow>
   ('i, 'r) queue_state \<Rightarrow> ('i, 'r) queue_state option" where
  "run K exec messageCallback [] s = Some s"
| "run K exec messageCallback (ev # evs) s =
     (case step K exec messageCallback ev s of
        None \<Rightarrow> None
      | Some s' \<Rightarrow> run K exec messageCallback evs s')"

text \<open>The queue is idle: nothing waits and nothing is in flight.\<close>

definition idle :: "('i, 'r) queue_state \<Rightarrow> bool" where
  "idle s = (tasks s = [] \<and> workers s = [])"

text \<open>
  One turn of the loop \<open>for (const item of items)\<close>: a new pending promise is appended
  to \<open>p\<close> and its task is pushed to the queue.
\<close>

definition submit :: "('i, 'r) queue_state \<Rightarrow> 'i \<Rightarrow> ('i, 'r) queue_state" where
  "submit s item =
     s\<lparr>tasks := tasks s @ [(item, length (promises s))], promises := promises s @ [None]\<rparr>"

text \<open>
  The synchronous part of \<open>queueExec\<close>: the state when the function returns
  \<open>Promise.all(p)\<close>. No task has started yet: the queue starts its tasks after the loop.
\<close>

definition queueExec :: "'i list \<Rightarrow> ('i, 'r) queue_state" where
  "queueExec items =
     (let s = foldl submit
                \<lparr>numDone = 0, logged = [], tasks = [], workers = [], promises = [],
                  all_p = None, started = []\<rparr> items
      in s\<lparr>all_p := Promise_all None (promises s)\<rparr>)"

section \<open>Packages\<close>

text \<open>\<open>message ? (pkg) => ` ${pkg.nameColored}: ${message}` : undefined\<close>; an empty message is falsy.\<close>

definition messageCallback_of ::
  "(nat \<Rightarrow> string \<Rightarrow> string) \<Rightarrow> string option \<Rightarrow> (Package \<Rightarrow> string) option" where
  "messageCallback_of chalk message =
     (case message of
        None \<Rightarrow> None
      | Some m \<Rightarrow> if m \<noteq> [] then Some (\<lambda>pkg. '' '' @ nameColored chalk pkg @ '': '' @ m) else None)"

text \<open>
  \<open>queueExecOnAllPackageCore\<close>: the message callback the queue runs with, and the state
  \<open>queueExec\<close> starts from.
\<close>

definition queueExecOnAllPackageCore ::
  "(nat \<Rightarrow> string \<Rightarrow> string) \<Rightarrow> Package list \<Rightarrow> string option \<Rightarrow>
   (Package \<Rightarrow> string) option \<times> (Package, 'r) queue_state" where
  "queueExecOnAllPackageCore chalk packages message =
     (messageCallback_of chalk message, queueExec packages)"

text \<open>
  \<open>const results = await all; return !results.some(result => result.error)\<close>, the end
  of \<open>queueExecOnAllPackage\<close> and of \<open>clean\<close>: pending while \<open>all\<close> is, rejected as
  \<open>all\<close> is, else fulfilled with the verdict.
\<close>

definition await_verdict :: "ExecAsyncResult list settled option \<Rightarrow> bool settled option" where
  "await_verdict awaited =
     (case awaited of
        None \<Rightarrow> None
      | Some (Rejected e) \<Rightarrow> Some (Rejected e)
      | Some (Fulfilled results) \<Rightarrow> Some (Fulfilled (verdict results)))"

definition queueExecOnAllPackage :: "(Package, ExecAsyncResult) queue_state \<Rightarrow> bool settled option" where
  "queueExecOnAllPackage s = await_verdict (all_p s)"

text \<open>
  The sequential loop of \<open>forEachAsync\<close>. \<open>Enter pkg\<close> and \<open>Leave pkg\<close> mark the call of
  the operation on a package and the moment its promise has settled; \<open>await\<close> throws
  when the promise is rejected, which ends the loop.
\<close>

datatype 'a mark = Enter 'a | Leave 'a

fun forEachAsync_loop ::
  "(Package \<Rightarrow> 'r settled) \<Rightarrow> Package list \<Rightarrow> 'r list \<Rightarrow> Package mark list \<times> 'r list settled" where
  "forEachAsync_loop exec [] results = ([], Fulfilled results)"
| "forEachAsync_loop exec (pkg # rest) results =
     (case exec pkg of
        Rejected e \<Rightarrow> ([Enter pkg, Leave pkg], Rejected e)
      | Fulfilled result \<Rightarrow>
          (case forEachAsync_loop exec rest (results @ [result]) of
             (trace, outcome) \<Rightarrow> (Enter pkg # Leave pkg # trace, outcome)))"

text \<open>
  \<open>forEachAsync\<close>: with \<open>parallel\<close> the call is handed to the queue (\<open>Inl\<close>), else
  the loop runs (\<open>Inr\<close>: its marks and what the returned promise settles with).
\<close>

definition forEachAsync ::
  "(nat \<Rightarrow> string \<Rightarrow> string) \<Rightarrow> Package list \<Rightarrow> (Package \<Rightarrow> 'r settled) \<Rightarrow> bool \<Rightarrow>
   string option \<Rightarrow>
   ((Package \<Rightarrow> string) option \<times> (Package, 'r) queue_state) + (Package mark list \<times> 'r list settled)" where
  "forEachAsync chalk packages exec parallel message =
     (if parallel then Inl (queueExecOnAllPackageCore chalk packages message)
      else Inr (forEachAsync_loop exec packages []))"

subsection \<open>Packages.clean\<close>

text \<open>
  The state of one call of \<open>clean\<close>: the array \<open>cleanP\<close>, the calls of \<open>execCleanScript\<close>
  in flight (package, script, index in \<open>cleanP\<close>, \<open>startTime\<close>), and the promise
  \<open>Promise.all(cleanP)\<close>.
\<close>

record clean_state = progress +
  cleanP :: "ExecAsyncResult settled option list"
  inflight :: "(Package \<times> string \<times> nat \<times> int) list"
  all_cleanP :: "ExecAsyncResult list settled option"

text \<open>
  The loop over the packages. \<open>execCleanScript\<close> is called at once for a package with
  a truthy clean script (\<open>undefined\<close> and the empty string are falsy), and its promise
  pushed to \<open>cleanP\<close>; \<open>clock k\<close> is what \<open>Date.now()\<close> returns in the call for
  \<open>cleanP[k]\<close>. A fault of \<open>getScript\<close> ends the function. An inherited member
  is truthy, so the call would be made with it, the model passing its key for the
  command; no key of \<open>Object.prototype\<close> is \<open>clean\<close>, so this does not happen.
\<close>

fun clean_loop :: "(nat \<Rightarrow> int) \<Rightarrow> Package list \<Rightarrow> clean_state \<Rightarrow> fault + clean_state" where
  "clean_loop clock [] s = Inr s"
| "clean_loop clock (pkg # rest) s =
     (case getScript pkg ''clean'' of
        Inl e \<Rightarrow> Inl e
      | Inr Undefined \<Rightarrow> clean_loop clock rest s
      | Inr (Own cleanScript) \<Rightarrow>
          if truthy (JStr cleanScript)
          then clean_loop clock rest
                 (s\<lparr>cleanP := cleanP s @ [None],
                    inflight := inflight s @
                      [(pkg, cleanScript, length (cleanP s), clock (length (cleanP s)))]\<rparr>)
          else clean_loop clock rest s
      | Inr (Inherited member) \<Rightarrow>
          clean_loop clock rest
            (s\<lparr>cleanP := cleanP s @ [None],
               inflight := inflight s @
                 [(pkg, member, length (cleanP s), clock (length (cleanP s)))]\<rparr>))"

text \<open>The synchronous part of \<open>clean\<close>, up to \<open>Promise.all(cleanP)\<close>.\<close>

definition clean :: "(nat \<Rightarrow> int) \<Rightarrow> Package list \<Rightarrow> fault + clean_state" where
  "clean clock packages =
     (case clean_loop clock packages
             \<lparr>numDone = 0, logged = [], cleanP = [], inflight = [], all_cleanP = None\<rparr> of
        Inl e \<Rightarrow> Inl e
      | Inr s \<Rightarrow> Inr (s\<lparr>all_cleanP := Promise_all None (cleanP s)\<rparr>))"

text \<open>
  Modelled from the spec: \<open>execWithErrorAsync\<close> of \<open>./utils\<close> is not under src/. By the
  spec the script executor returns a failure as data, in the error indicator of its
  result, and never as a thrown fault; it is a parameter of this type, from the command
  and the package (whose directory and coloured name make the options of the call) to
  the result.
\<close>

type_synonym executor = "string \<Rightarrow> Package \<Rightarrow> ExecAsyncResult"

text \<open>
  \<open>execCleanScript\<close> from the return of the executor on: with \<open>status\<close> the counter is
  incremented and the status line logged. \<open>clean_step\<close> is the event that the script of
  \<open>cleanP[slot]\<close> has ended, with the clock at \<open>now\<close>; it is \<open>None\<close> when that call is
  not in flight.
\<close>

definition execCleanScript ::
  "bool \<Rightarrow> executor \<Rightarrow> (nat \<Rightarrow> string \<Rightarrow> string) \<Rightarrow>
   Package \<Rightarrow> string \<Rightarrow> int \<Rightarrow> int \<Rightarrow> clean_state \<Rightarrow> ExecAsyncResult \<times> clean_state" where
  "execCleanScript status executor chalk pkg cleanScript startTime now s =
     (let result = executor cleanScript pkg
      in (result,
          if status
          then s\<lparr>numDone := numDone s + 1,
                 logged := logged s @
                   [\<lparr>sl_index = numDone s + 1, sl_total = length (cleanP s),
                     sl_label = nameColored chalk pkg @ '': '' @ cleanScript,
                     sl_elapsed = now - startTime\<rparr>]\<rparr>
          else s))"

definition clean_step ::
  "bool \<Rightarrow> executor \<Rightarrow> (nat \<Rightarrow> string \<Rightarrow> string) \<Rightarrow>
   nat \<times> int \<Rightarrow> clean_state \<Rightarrow> clean_state option" where
  "clean_step status executor chalk ev s =
     (case find (\<lambda>c. fst (snd (snd c)) = fst ev) (inflight s) of
        None \<Rightarrow> None
      | Some (pkg, cleanScript, slot, startTime) \<Rightarrow>
          (case execCleanScript status executor chalk pkg cleanScript startTime (snd ev) s of
             (result, s') \<Rightarrow>
               Some (s'\<lparr>cleanP := (cleanP s')[slot := Some (Fulfilled result)],
                        inflight := filter (\<lambda>c. fst (snd (snd c)) \<noteq> slot) (inflight s'),
                        all_cleanP :=
                          Promise_all (all_cleanP s') ((cleanP s')[slot := Some (Fulfilled result)])\<rparr>)))"

fun clean_run ::
  "bool \<Rightarrow> executor \<Rightarrow> (nat \<Rightarrow> string \<Rightarrow> string) \<Rightarrow>
   (nat \<times> int) list \<Rightarrow> clean_state \<Rightarrow> clean_state option" where
  "clean_run status executor chalk [] s = Some s"
| "clean_run status executor chalk (ev # evs) s =
     (case clean_step status executor chalk ev s of
        None \<Rightarrow> None
      | Some s' \<Rightarrow> clean_run status executor chalk evs s')"

text \<open>What \<open>clean\<close> returns: the verdict over the results of \<open>Promise.all(cleanP)\<close>.\<close>

definition clean_returns :: "clean_state \<Rightarrow> bool settled option" where
  "clean_returns s = await_verdict (all_cleanP s)"

section \<open>Invariants and measures of a run\<close>

text \<open>The promise index of a task in flight.\<close>

definition slot_of :: "'i \<times> nat \<times> int \<Rightarrow> nat" where
  "slot_of w = fst (snd w)"

text \<open>
  What holds of every state a run of \<open>queueExec items\<close> reaches: \<open>p\<close> has one promise
  per item; the tasks started so far are the first ones in the order of submission and
  the backlog is the rest; the tasks in flight are started tasks with distinct promise
  indices, each with the item of its index; and a promise is settled, with the outcome of
  the operation on its item, exactly when its task was started and is in flight no more.
\<close>

definition queue_inv :: "'i list \<Rightarrow> ('i \<Rightarrow> 'r settled) \<Rightarrow> ('i, 'r) queue_state \<Rightarrow> bool" where
  "queue_inv items exec s =
     (length (promises s) = length items
      \<and> length (started s) \<le> length items
      \<and> started s = [0..<length (started s)]
      \<and> tasks s = drop (length (started s)) (zip items [0..<length items])
      \<and> distinct (map slot_of (workers s))
      \<and> (\<forall>w \<in> set (workers s). slot_of w < length (started s) \<and> fst w = items ! slot_of w)
      \<and> (\<forall>i < length items. promises s ! i =
            (if i < length (started s) \<and> i \<notin> slot_of ` set (workers s)
             then Some (exec (items ! i)) else None)))"

text \<open>The number of events a run still has to make: two for a waiting task, one for a task in flight.\<close>

definition remaining :: "('i, 'r) queue_state \<Rightarrow> nat" where
  "remaining s = 2 * length (tasks s) + length (workers s)"

text \<open>
  How the promise of \<open>Promise.all\<close> stands to the promises it waits for: pending while
  none is rejected and not all are fulfilled, fulfilled with their values, or rejected
  with the reason of one of them.
\<close>

definition all_inv :: "'r list settled option \<Rightarrow> 'r settled option list \<Rightarrow> bool" where
  "all_inv a ps =
     (case a of
        None \<Rightarrow> first_rejection ps = None \<and> fulfilled_values ps = None
      | Some (Fulfilled rs) \<Rightarrow> fulfilled_values ps = Some rs
      | Some (Rejected e) \<Rightarrow> Some (Rejected e) \<in> set ps)"

fun is_fulfilled :: "'r settled option \<Rightarrow> bool" where
  "is_fulfilled (Some (Fulfilled r)) = True"
| "is_fulfilled x = False"

text \<open>
  The counter and the log of a run with a message callback: the indices logged are
  \<open>1, \<dots>, numDone\<close> in this order, \<open>numDone\<close> is the number of fulfilled promises, and every
  line carries the length of \<open>p\<close> as its total.
\<close>

definition report_inv :: "('i, 'r) queue_state \<Rightarrow> bool" where
  "report_inv s =
     (map sl_index (logged s) = [1..<Suc (numDone s)]
      \<and> numDone s = length (filter is_fulfilled (promises s))
      \<and> (\<forall>l \<in> set (logged s). sl_total l = length (promises s)))"

subsection \<open>clean\<close>

text \<open>
  The clean script \<open>clean\<close> runs for a package: the entry \<open>clean\<close> of its scripts
  object when there is one and it is not the empty string.
\<close>

definition clean_script_of :: "Package \<Rightarrow> string option" where
  "clean_script_of pkg =
     (case json_scripts (packageJson pkg) of
        None \<Rightarrow> None
      | Some scripts \<Rightarrow>
          (case scripts ''clean'' of
             None \<Rightarrow> None
           | Some script \<Rightarrow> if script \<noteq> [] then Some script else None))"

text \<open>The packages with such a script, each with its script, in the order of the list.\<close>

fun included :: "Package list \<Rightarrow> (Package \<times> string) list" where
  "included [] = []"
| "included (pkg # rest) =
     (case clean_script_of pkg of
        None \<Rightarrow> included rest
      | Some script \<Rightarrow> (pkg, script) # included rest)"

text \<open>The calls of \<open>execCleanScript\<close> for them: the \<open>k\<close>-th has index \<open>k\<close> and start time \<open>clock k\<close>.\<close>

fun number_calls ::
  "(nat \<Rightarrow> int) \<Rightarrow> nat \<Rightarrow> (Package \<times> string) list \<Rightarrow> (Package \<times> string \<times> nat \<times> int) list" where
  "number_calls clock k [] = []"
| "number_calls clock k (c # rest) = (fst c, snd c, k, clock k) # number_calls clock (Suc k) rest"

definition slot_of_call :: "Package \<times> string \<times> nat \<times> int \<Rightarrow> nat" where
  "slot_of_call c = fst (snd (snd c))"

definition result_of_call ::
  "executor \<Rightarrow> Package \<times> string \<Rightarrow> ExecAsyncResult" where
  "result_of_call executor c = executor (snd c) (fst c)"

text \<open>
  What holds of every state a run of \<open>clean\<close> reaches, \<open>inc\<close> being the included
  packages: \<open>cleanP\<close> has one promise for each; the calls in flight have distinct indices
  and are the calls made for these indices; a promise is pending while its call is in
  flight and fulfilled with the result of its script afterwards.
\<close>

definition clean_inv ::
  "executor \<Rightarrow> (nat \<Rightarrow> int) \<Rightarrow> (Package \<times> string) list \<Rightarrow>
   clean_state \<Rightarrow> bool" where
  "clean_inv executor clock inc s =
     (length (cleanP s) = length inc
      \<and> distinct (map slot_of_call (inflight s))
      \<and> (\<forall>c \<in> set (inflight s). slot_of_call c < length inc
            \<and> c = (fst (inc ! slot_of_call c), snd (inc ! slot_of_call c), slot_of_call c,
                   clock (slot_of_call c)))
      \<and> (\<forall>k < length inc. cleanP s ! k =
            (if k \<in> slot_of_call ` set (inflight s) then None
             else Some (Fulfilled (result_of_call executor (inc ! k))))))"

definition clean_report_inv :: "clean_state \<Rightarrow> bool" where
  "clean_report_inv s =
     (map sl_index (logged s) = [1..<Suc (numDone s)]
      \<and> numDone s = length (filter is_fulfilled (cleanP s)))"

section \<open>Example operations and packages\<close>

text \<open>An operation on strings that rejects on the item \<open>bad\<close> and returns every other item.\<close>

definition exec_failing_on :: "string \<Rightarrow> string \<Rightarrow> string settled" where
  "exec_failing_on bad item = (if item = bad then Rejected (Thrown item) else Fulfilled item)"

text \<open>A colour table that leaves the text as it is.\<close>

definition plain :: "nat \<Rightarrow> string \<Rightarrow> string" where
  "plain i text = text"

text \<open>A script executor for which the command \<open>exit 1\<close> fails and every other one succeeds.\<close>

definition run_script :: executor where
  "run_script command pkg =
     (if command = ''exit 1''
      then \<lparr>error = JObj ''Command failed: exit 1'', stdout = [], stderr = []\<rparr>
      else \<lparr>error = JNull, stdout = [], stderr = []\<rparr>)"

text \<open>The package constructed as number \<open>i\<close> from a manifest with the given name and scripts.\<close>

definition pkg_with :: "nat \<Rightarrow> string \<Rightarrow> (string \<rightharpoonup> string) option \<Rightarrow> Package" where
  "pkg_with i n scripts =
     fst (Package_new i (n @ ''/package.json'')
            \<lparr>json_name = n, json_version = ''1.0.0'', json_scripts = scripts\<rparr>)"

text \<open>
  An operation on packages that runs the clean script with \<open>run_script\<close>; it rejects
  with the fault of \<open>getScript\<close> and succeeds with nothing to do when there is no script.
\<close>

definition run_clean :: "Package \<Rightarrow> ExecAsyncResult settled" where
  "run_clean pkg =
     (case getScript pkg ''clean'' of
        Inl e \<Rightarrow> Rejected e
      | Inr Undefined \<Rightarrow> Fulfilled \<lparr>error = JNull, stdout = [], stderr = []\<rparr>
      | Inr (Own script) \<Rightarrow> Fulfilled (run_script script pkg)
      | Inr (Inherited member) \<Rightarrow> Rejected TypeError)"


section \<open>Properties of Package\<close>

lemma some_iff: "some f xs \<longleftrightarrow> (\<exists>x \<in> set xs. f x)"
  by (induction xs) auto

lemma call_keeps_matched: "u_matched pkg \<Longrightarrow> u_matched (call m pkg)"
  by (cases m) (simp_all add: setMatched_def setMarkForBuild_def)

lemma call_keeps_markForBuild: "u_markForBuild pkg \<Longrightarrow> u_markForBuild (call m pkg)"
  by (cases m) (simp_all add: setMatched_def setMarkForBuild_def)

lemma call_keeps_implication:
  "(u_matched pkg \<longrightarrow> u_markForBuild pkg) \<Longrightarrow>
   (u_matched (call m pkg) \<longrightarrow> u_markForBuild (call m pkg))"
  by (cases m) (simp_all add: setMatched_def setMarkForBuild_def)

lemma calls_keep_implication:
  "(u_matched pkg \<longrightarrow> u_markForBuild pkg) \<Longrightarrow>
   (u_matched (calls ms pkg) \<longrightarrow> u_markForBuild (calls ms pkg))"
proof (induction ms arbitrary: pkg)
  case Nil
  then show ?case by simp
next
  case (Cons m ms)
  have "u_matched (call m pkg) \<longrightarrow> u_markForBuild (call m pkg)"
    using Cons.prems by (rule call_keeps_implication)
  then show ?case using Cons.IH by simp
qed

text \<open>
  C1. The verdict over a list of execution results is false exactly when some result has
  a truthy error indicator; it is true for the empty list and for every list whose error
  indicators are all falsy.
\<close>

theorem verdict_false_iff_some_error:
  "(verdict results = False \<longleftrightarrow> (\<exists>result \<in> set results. truthy (error result)))
   \<and> verdict [] = True
   \<and> ((\<forall>result \<in> set results. \<not> truthy (error result)) \<longrightarrow> verdict results = True)"
  by (simp add: verdict_def some_iff)

theorem verdict_false_iff_some_error_witness:
  "verdict [\<lparr>error = JNull, stdout = ''ok'', stderr = []\<rparr>,
            \<lparr>error = JObj ''exit 1'', stdout = [], stderr = ''failed''\<rparr>] = False
   \<and> verdict [\<lparr>error = JNull, stdout = ''ok'', stderr = []\<rparr>,
              \<lparr>error = JUndefined, stdout = [], stderr = []\<rparr>] = True"
  using verdict_false_iff_some_error
      [of "[\<lparr>error = JNull, stdout = ''ok'', stderr = []\<rparr>,
            \<lparr>error = JObj ''exit 1'', stdout = [], stderr = ''failed''\<rparr>]"]
    verdict_false_iff_some_error
      [of "[\<lparr>error = JNull, stdout = ''ok'', stderr = []\<rparr>,
            \<lparr>error = JUndefined, stdout = [], stderr = []\<rparr>]"]
  by simp

text \<open>
  C8. A new Package has \<open>matched = false\<close> and \<open>markForBuild = false\<close>; after every
  sequence of method calls \<open>matched\<close> implies \<open>markForBuild\<close>; \<open>setMatched\<close> sets both
  flags, \<open>setMarkForBuild\<close> sets \<open>markForBuild\<close> and leaves \<open>matched\<close> as it was, and no
  method clears a flag that is set.
\<close>

theorem matched_implies_markForBuild:
  "matched (fst (Package_new n f j)) = False
   \<and> markForBuild (fst (Package_new n f j)) = False
   \<and> (matched (calls ms (fst (Package_new n f j)))
        \<longrightarrow> markForBuild (calls ms (fst (Package_new n f j))))
   \<and> matched (setMatched pkg) \<and> markForBuild (setMatched pkg)
   \<and> markForBuild (setMarkForBuild pkg)
   \<and> matched (setMarkForBuild pkg) = matched pkg
   \<and> (matched pkg \<longrightarrow> matched (call m pkg))
   \<and> (markForBuild pkg \<longrightarrow> markForBuild (call m pkg))"
proof -
  have init: "u_matched (fst (Package_new n f j)) \<longrightarrow> u_markForBuild (fst (Package_new n f j))"
    by (simp add: Package_new_def)
  have "u_matched (calls ms (fst (Package_new n f j)))
        \<longrightarrow> u_markForBuild (calls ms (fst (Package_new n f j)))"
    using init by (rule calls_keep_implication)
  then show ?thesis
    using call_keeps_matched [of pkg m] call_keeps_markForBuild [of pkg m]
    by (simp add: matched_def markForBuild_def Package_new_def setMatched_def
        setMarkForBuild_def)
qed

theorem matched_implies_markForBuild_witness:
  "matched (calls [SetMarkForBuild, GetScript ''clean'', SetMatched]
      (fst (Package_new 0 ''a/package.json''
         \<lparr>json_name = ''a'', json_version = ''1.0.0'', json_scripts = None\<rparr>)))
   \<and> markForBuild (calls [SetMarkForBuild, GetScript ''clean'', SetMatched]
      (fst (Package_new 0 ''a/package.json''
         \<lparr>json_name = ''a'', json_version = ''1.0.0'', json_scripts = None\<rparr>)))
   \<and> \<not> matched (calls [SetMarkForBuild]
      (fst (Package_new 0 ''a/package.json''
         \<lparr>json_name = ''a'', json_version = ''1.0.0'', json_scripts = None\<rparr>)))"
  using matched_implies_markForBuild
    [of 0 "''a/package.json''"
        "\<lparr>json_name = ''a'', json_version = ''1.0.0'', json_scripts = None\<rparr>"
        "[SetMarkForBuild, GetScript ''clean'', SetMatched]"]
  by (simp add: matched_def markForBuild_def Package_new_def setMatched_def
      setMarkForBuild_def)

lemma getScript_clean:
  "getScript pkg ''clean'' =
     (case json_scripts (packageJson pkg) of
        None \<Rightarrow> Inl TypeError
      | Some scripts \<Rightarrow>
          (case scripts ''clean'' of None \<Rightarrow> Inr Undefined | Some command \<Rightarrow> Inr (Own command)))"
  by (simp add: getScript_def Object_prototype_def split: option.splits)

text \<open>
  A name that is no key of the scripts object and yet does not give \<open>undefined\<close>: the
  read of \<open>constructor\<close> gives the member inherited from \<open>Object.prototype\<close>.
\<close>

theorem getScript_inherited_counterexample:
  "''constructor'' \<notin> dom [''clean'' \<mapsto> ''rimraf dist'']
   \<and> getScript (fst (Package_new 0 ''a/package.json''
       \<lparr>json_name = ''a'', json_version = ''1.0.0'',
        json_scripts = Some [''clean'' \<mapsto> ''rimraf dist'']\<rparr>)) ''constructor''
     = Inr (Inherited ''constructor'')"
  by (simp add: getScript_def Package_new_def Object_prototype_def)

text \<open>
  C10 (amended). \<open>getScript\<close> reads \<open>packageJson.scripts\<close> without a guard. When the
  manifest has a scripts object the call returns: for a name that is a key, its command
  string; for a name that is no key and not a key of \<open>Object.prototype\<close>, \<open>undefined\<close>;
  for a name that is no key but a key of \<open>Object.prototype\<close>, the inherited member. When
  the manifest has no scripts field every call faults with a TypeError.
\<close>

theorem getScript_unguarded:
  "(json_scripts (packageJson pkg) = Some scripts \<longrightarrow>
      (\<exists>v. getScript pkg script = Inr v)
      \<and> (\<forall>command. scripts script = Some command \<longrightarrow> getScript pkg script = Inr (Own command))
      \<and> (script \<notin> dom scripts \<and> script \<notin> set Object_prototype \<longrightarrow>
            getScript pkg script = Inr Undefined)
      \<and> (script \<notin> dom scripts \<and> script \<in> set Object_prototype \<longrightarrow>
            getScript pkg script = Inr (Inherited script)))
   \<and> (json_scripts (packageJson pkg) = None \<longrightarrow> getScript pkg script = Inl TypeError)"
  by (auto simp: getScript_def split: option.splits)

theorem getScript_unguarded_witness:
  "getScript (fst (Package_new 0 ''a/package.json''
       \<lparr>json_name = ''a'', json_version = ''1.0.0'',
        json_scripts = Some [''clean'' \<mapsto> ''rimraf dist'']\<rparr>)) ''clean''
     = Inr (Own ''rimraf dist'')
   \<and> getScript (fst (Package_new 0 ''a/package.json''
       \<lparr>json_name = ''a'', json_version = ''1.0.0'',
        json_scripts = Some [''clean'' \<mapsto> ''rimraf dist'']\<rparr>)) ''build''
     = Inr Undefined
   \<and> getScript (fst (Package_new 0 ''a/package.json''
       \<lparr>json_name = ''a'', json_version = ''1.0.0'',
        json_scripts = Some [''clean'' \<mapsto> ''rimraf dist'']\<rparr>)) ''toString''
     = Inr (Inherited ''toString'')
   \<and> getScript (fst (Package_new 1 ''b/package.json''
       \<lparr>json_name = ''b'', json_version = ''1.0.0'', json_scripts = None\<rparr>)) ''clean''
     = Inl TypeError"
  using getScript_unguarded
    [of "fst (Package_new 0 ''a/package.json''
       \<lparr>json_name = ''a'', json_version = ''1.0.0'',
        json_scripts = Some [''clean'' \<mapsto> ''rimraf dist'']\<rparr>)"
        "[''clean'' \<mapsto> ''rimraf dist'']" "''clean''"]
    getScript_unguarded
    [of "fst (Package_new 0 ''a/package.json''
       \<lparr>json_name = ''a'', json_version = ''1.0.0'',
        json_scripts = Some [''clean'' \<mapsto> ''rimraf dist'']\<rparr>)"
        "[''clean'' \<mapsto> ''rimraf dist'']" "''build''"]
    getScript_unguarded
    [of "fst (Package_new 0 ''a/package.json''
       \<lparr>json_name = ''a'', json_version = ''1.0.0'',
        json_scripts = Some [''clean'' \<mapsto> ''rimraf dist'']\<rparr>)"
        "[''clean'' \<mapsto> ''rimraf dist'']" "''toString''"]
    getScript_unguarded
    [of "fst (Package_new 1 ''b/package.json''
       \<lparr>json_name = ''b'', json_version = ''1.0.0'', json_scripts = None\<rparr>)"
        "[''clean'' \<mapsto> ''rimraf dist'']" "''clean''"]
  by (simp add: Package_new_def Object_prototype_def)

section \<open>Properties of the queue, of the sequential loop and of clean\<close>

subsection \<open>The state queueExec starts from, and the invariant of a run\<close>

lemma upt_add_Suc: "[n..<n + Suc k] = n # [Suc n..<Suc n + k]"
  by (simp add: upt_conv_Cons)

lemma foldl_submit:
  "foldl submit s items =
     s\<lparr>tasks := tasks s @ zip items [length (promises s)..<length (promises s) + length items],
       promises := promises s @ replicate (length items) None\<rparr>"
proof (induction items arbitrary: s)
  case Nil
  then show ?case by simp
next
  case (Cons x xs)
  let ?n = "length (promises s)"
  have "length (x # xs) = Suc (length xs)" by simp
  then have u: "[?n..<?n + length (x # xs)] = ?n # [Suc ?n..<Suc ?n + length xs]"
    by (simp only: upt_add_Suc)
  have "foldl submit s (x # xs) = foldl submit (submit s x) xs" by simp
  also have "\<dots> = (submit s x)\<lparr>tasks := tasks (submit s x) @
        zip xs [length (promises (submit s x))..<length (promises (submit s x)) + length xs],
       promises := promises (submit s x) @ replicate (length xs) None\<rparr>"
    by (rule Cons.IH)
  also have "\<dots> = s\<lparr>tasks := tasks s @ zip (x # xs) [?n..<?n + length (x # xs)],
       promises := promises s @ replicate (length (x # xs)) None\<rparr>"
    unfolding u by (simp add: submit_def)
  finally show ?case .
qed

lemma queueExec_state:
  "queueExec items =
     \<lparr>numDone = 0, logged = [], tasks = zip items [0..<length items], workers = [],
      promises = replicate (length items) None,
      all_p = Promise_all None (replicate (length items) None), started = []\<rparr>"
  by (simp add: queueExec_def foldl_submit Let_def)

lemma queue_inv_init: "queue_inv items exec (queueExec items)"
  by (simp add: queue_inv_def queueExec_state)

lemma timedExec_fst: "fst (timedExec exec cb item st now s) = exec item"
  by (simp add: timedExec_def split: option.splits settled.splits)

lemma timedExec_snd:
  "tasks (snd (timedExec exec cb item st now s)) = tasks s"
  "workers (snd (timedExec exec cb item st now s)) = workers s"
  "promises (snd (timedExec exec cb item st now s)) = promises s"
  "all_p (snd (timedExec exec cb item st now s)) = all_p s"
  "started (snd (timedExec exec cb item st now s)) = started s"
  by (simp_all add: timedExec_def split: option.splits settled.splits)

lemma find_slot:
  "find (\<lambda>w. fst (snd w) = slot) ws = Some w \<Longrightarrow> w \<in> set ws \<and> slot_of w = slot"
  by (induction ws) (auto simp: slot_of_def split: if_splits)

lemma step_Process:
  "step K exec cb (Process now) s = Some s' \<Longrightarrow>
   \<exists>item slot rest. tasks s = (item, slot) # rest \<and> length (workers s) < K
     \<and> s' = s\<lparr>tasks := rest, workers := workers s @ [(item, slot, now)], started := started s @ [slot]\<rparr>"
  by (auto split: list.splits if_splits)

lemma step_Settle:
  assumes a: "step K exec cb (Settle slot now) s = Some s'"
  shows "\<exists>w. w \<in> set (workers s) \<and> slot_of w = slot
     \<and> s' = worker_done slot (exec (fst w)) (snd (timedExec exec cb (fst w) (snd (snd w)) now s))"
proof -
  from a obtain w where f: "find (\<lambda>w. fst (snd w) = slot) (workers s) = Some w"
    by (auto split: option.splits)
  obtain item sl st where w: "w = (item, sl, st)" by (cases w) auto
  obtain out s1 where t: "timedExec exec cb item st now s = (out, s1)" by fastforce
  have "out = exec item" using timedExec_fst [of exec cb item st now s] t by simp
  with a f w t have "s' = worker_done slot (exec item) s1" by simp
  then have "s' = worker_done slot (exec (fst w)) (snd (timedExec exec cb (fst w) (snd (snd w)) now s))"
    by (simp add: w t)
  with find_slot [OF f] show ?thesis by blast
qed

lemma drop_zip_Cons:
  assumes "drop m (zip items [0..<length items]) = (item, slot) # rest"
  shows "m < length items \<and> item = items ! m \<and> slot = m
         \<and> rest = drop (Suc m) (zip items [0..<length items])"
proof -
  let ?z = "zip items [0..<length items]"
  have m: "m < length ?z" using assms by (cases "m < length ?z") auto
  then have "drop m ?z = ?z ! m # drop (Suc m) ?z" by (rule Cons_nth_drop_Suc [symmetric])
  moreover have "?z ! m = (items ! m, m)" using m by simp
  ultimately show ?thesis using assms m by simp
qed

lemma queue_inv_Process:
  assumes "queue_inv items exec s" "step K exec cb (Process now) s = Some s'"
  shows "queue_inv items exec s'"
proof -
  from step_Process [OF assms(2)] obtain item slot rest where
    t: "tasks s = (item, slot) # rest" and
    s': "s' = s\<lparr>tasks := rest, workers := workers s @ [(item, slot, now)], started := started s @ [slot]\<rparr>"
    by blast
  let ?m = "length (started s)"
  from assms(1) t have "drop ?m (zip items [0..<length items]) = (item, slot) # rest"
    by (simp add: queue_inv_def)
  from drop_zip_Cons [OF this] have m: "?m < length items" "item = items ! ?m" "slot = ?m"
    "rest = drop (Suc ?m) (zip items [0..<length items])" by auto
  have st: "started s = [0..<?m]" using assms(1) by (simp add: queue_inv_def)
  have st': "started s @ [slot] = [0..<Suc ?m]" using st m(3) by (metis upt_Suc_append zero_le)
  have old: "\<forall>w \<in> set (workers s). slot_of w < ?m" using assms(1) by (simp add: queue_inv_def)
  show ?thesis
    unfolding queue_inv_def s'
  proof (intro conjI)
    show "distinct (map slot_of (workers (s\<lparr>tasks := rest, workers := workers s @ [(item, slot, now)], started := started s @ [slot]\<rparr>)))"
      using assms(1) old m(3) by (auto simp: queue_inv_def slot_of_def)
    show "started (s\<lparr>tasks := rest, workers := workers s @ [(item, slot, now)], started := started s @ [slot]\<rparr>) = [0..<length (started (s\<lparr>tasks := rest, workers := workers s @ [(item, slot, now)], started := started s @ [slot]\<rparr>))]"
      using st' by simp
    show "\<forall>i<length items. promises (s\<lparr>tasks := rest, workers := workers s @ [(item, slot, now)], started := started s @ [slot]\<rparr>) ! i =
            (if i < length (started (s\<lparr>tasks := rest, workers := workers s @ [(item, slot, now)], started := started s @ [slot]\<rparr>)) \<and> i \<notin> slot_of ` set (workers (s\<lparr>tasks := rest, workers := workers s @ [(item, slot, now)], started := started s @ [slot]\<rparr>))
             then Some (exec (items ! i)) else None)"
      using assms(1) old m(3) by (auto simp: queue_inv_def slot_of_def less_Suc_eq)
  qed (use assms(1) m old in \<open>auto simp: queue_inv_def slot_of_def less_Suc_eq\<close>)
qed

lemma worker_done_fields:
  "tasks (worker_done slot out s) = tasks s"
  "started (worker_done slot out s) = started s"
  "numDone (worker_done slot out s) = numDone s"
  "logged (worker_done slot out s) = logged s"
  "workers (worker_done slot out s) = filter (\<lambda>w. fst (snd w) \<noteq> slot) (workers s)"
  "promises (worker_done slot out s) = (promises s)[slot := Some out]"
  "all_p (worker_done slot out s) = Promise_all (all_p s) ((promises s)[slot := Some out])"
  by (simp_all add: worker_done_def)

lemma queue_inv_Settle:
  assumes inv: "queue_inv items exec s" and st: "step K exec cb (Settle slot now) s = Some s'"
  shows "queue_inv items exec s'"
proof -
  from step_Settle [OF st] obtain w where
    w: "w \<in> set (workers s)" "slot_of w = slot" and
    s': "s' = worker_done slot (exec (fst w)) (snd (timedExec exec cb (fst w) (snd (snd w)) now s))"
    by blast
  let ?m = "length (started s)"
  have wk: "workers s' = filter (\<lambda>w. slot_of w \<noteq> slot) (workers s)"
    by (simp add: s' worker_done_fields timedExec_snd slot_of_def)
  have pr: "promises s' = (promises s)[slot := Some (exec (fst w))]"
    by (simp add: s' worker_done_fields timedExec_snd)
  have ta: "tasks s' = tasks s" and sa: "started s' = started s"
    by (simp_all add: s' worker_done_fields timedExec_snd)
  from inv w have sl: "slot < ?m" "fst w = items ! slot" by (auto simp: queue_inv_def)
  have len: "length (promises s) = length items" "?m \<le> length items"
    using inv by (simp_all add: queue_inv_def)
  have slots: "slot_of ` set (workers s') = slot_of ` set (workers s) - {slot}"
    unfolding wk by auto
  have "\<forall>i<length items. promises s' ! i =
            (if i < length (started s') \<and> i \<notin> slot_of ` set (workers s')
             then Some (exec (items ! i)) else None)"
  proof (intro allI impI)
    fix i assume i: "i < length items"
    from inv i have old: "promises s ! i =
            (if i < ?m \<and> i \<notin> slot_of ` set (workers s) then Some (exec (items ! i)) else None)"
      by (simp add: queue_inv_def)
    show "promises s' ! i =
            (if i < length (started s') \<and> i \<notin> slot_of ` set (workers s')
             then Some (exec (items ! i)) else None)"
    proof (cases "i = slot")
      case True
      then show ?thesis using i len sl by (simp add: pr sa slots)
    next
      case False
      then show ?thesis using old by (simp add: pr sa slots)
    qed
  qed
  moreover have "distinct (map slot_of (workers s'))"
    unfolding wk using inv by (simp add: queue_inv_def distinct_map_filter)
  moreover have "\<forall>w \<in> set (workers s'). slot_of w < length (started s') \<and> fst w = items ! slot_of w"
    unfolding wk sa using inv by (simp add: queue_inv_def)
  ultimately show ?thesis
    using inv by (simp add: queue_inv_def ta sa pr)
qed

lemma queue_inv_step:
  "queue_inv items exec s \<Longrightarrow> step K exec cb ev s = Some s' \<Longrightarrow> queue_inv items exec s'"
  by (cases ev) (auto intro: queue_inv_Process queue_inv_Settle)

lemma queue_inv_run:
  "queue_inv items exec s \<Longrightarrow> run K exec cb evs s = Some s' \<Longrightarrow> queue_inv items exec s'"
proof (induction evs arbitrary: s)
  case Nil
  then show ?case by simp
next
  case (Cons ev evs)
  then show ?case by (auto split: option.splits dest: queue_inv_step)
qed

subsection \<open>Every run ends: the measure of a run\<close>

lemma length_filter_distinct_slot:
  "distinct (map slot_of ws) \<Longrightarrow> w \<in> set ws \<Longrightarrow>
   Suc (length (filter (\<lambda>v. slot_of v \<noteq> slot_of w) ws)) = length ws"
proof (induction ws)
  case Nil
  then show ?case by simp
next
  case (Cons v ws)
  show ?case
  proof (cases "v = w")
    case True
    have "slot_of w \<notin> slot_of ` set ws" using Cons.prems True by simp
    then have "\<forall>u \<in> set ws. slot_of u \<noteq> slot_of w" by (metis imageI)
    then have "filter (\<lambda>v. slot_of v \<noteq> slot_of w) ws = ws" by (simp add: filter_id_conv)
    then show ?thesis using True by simp
  next
    case False
    then have "w \<in> set ws" using Cons.prems by simp
    moreover have "slot_of v \<notin> slot_of ` set ws" using Cons.prems by simp
    then have "slot_of v \<noteq> slot_of w" using \<open>w \<in> set ws\<close> by (metis imageI)
    ultimately show ?thesis using Cons by simp
  qed
qed

lemma remaining_step:
  assumes "queue_inv items exec s" "step K exec cb ev s = Some s'"
  shows "Suc (remaining s') = remaining s"
proof (cases ev)
  case (Process now)
  with step_Process [of K exec cb now s s'] assms(2) show ?thesis
    by (auto simp: remaining_def)
next
  case (Settle slot now)
  with step_Settle [of K exec cb slot now s s'] assms(2) obtain w where
    w: "w \<in> set (workers s)" "slot_of w = slot" and
    s': "s' = worker_done slot (exec (fst w)) (snd (timedExec exec cb (fst w) (snd (snd w)) now s))"
    by blast
  have "distinct (map slot_of (workers s))" using assms(1) by (simp add: queue_inv_def)
  from length_filter_distinct_slot [OF this w(1)] w(2)
  show ?thesis
    by (simp add: remaining_def s' worker_done_fields timedExec_snd slot_of_def)
qed

lemma remaining_run:
  "queue_inv items exec s \<Longrightarrow> run K exec cb evs s = Some s' \<Longrightarrow>
   remaining s' + length evs = remaining s"
proof (induction evs arbitrary: s)
  case Nil
  then show ?case by simp
next
  case (Cons ev evs)
  from Cons.prems(2) obtain s1 where s1: "step K exec cb ev s = Some s1"
    and r: "run K exec cb evs s1 = Some s'" by (auto split: option.splits)
  from queue_inv_step [OF Cons.prems(1) s1] have "queue_inv items exec s1" .
  from Cons.IH [OF this r] remaining_step [OF Cons.prems(1) s1] show ?case by simp
qed

lemma idle_remaining: "idle s \<longleftrightarrow> remaining s = 0"
  by (simp add: idle_def remaining_def)

lemma find_hd:
  "ws \<noteq> [] \<Longrightarrow> \<exists>w. find (\<lambda>w. fst (snd w) = fst (snd (hd ws))) ws = Some w"
  by (cases ws) auto

lemma progress_step:
  assumes "1 \<le> K" "\<not> idle s"
  shows "\<exists>ev s'. step K exec cb ev s = Some s'"
proof (cases "workers s")
  case Nil
  with assms obtain item slot rest where "tasks s = (item, slot) # rest"
    by (cases "tasks s") (auto simp: idle_def)
  with Nil assms(1) have "step K exec cb (Process 0) s \<noteq> None" by simp
  then show ?thesis by blast
next
  case (Cons w ws)
  then obtain v where "find (\<lambda>w. fst (snd w) = fst (snd (hd (workers s)))) (workers s) = Some v"
    using find_hd [of "workers s"] by auto
  then have "step K exec cb (Settle (fst (snd (hd (workers s)))) 0) s \<noteq> None"
    by (auto split: prod.splits)
  then show ?thesis by blast
qed

lemma run_to_idle:
  assumes "1 \<le> K"
  shows "queue_inv items exec s \<Longrightarrow> remaining s = n \<Longrightarrow>
         \<exists>evs s'. run K exec cb evs s = Some s' \<and> idle s'"
proof (induction n arbitrary: s)
  case 0
  then have "run K exec cb [] s = Some s \<and> idle s" by (simp add: idle_remaining)
  then show ?case by blast
next
  case (Suc n)
  then have "\<not> idle s" by (simp add: idle_remaining)
  from progress_step [OF assms this] obtain ev s1 where s1: "step K exec cb ev s = Some s1"
    by blast
  from queue_inv_step [OF Suc.prems(1) s1] have i1: "queue_inv items exec s1" .
  from remaining_step [OF Suc.prems(1) s1] Suc.prems(2) have "remaining s1 = n" by simp
  from Suc.IH [OF i1 this] obtain evs s' where "run K exec cb evs s1 = Some s'" "idle s'"
    by blast
  with s1 have "run K exec cb (ev # evs) s = Some s' \<and> idle s'" by simp
  then show ?case by blast
qed

subsection \<open>Promise.all\<close>

lemma first_rejection_mem: "first_rejection ps = Some e \<Longrightarrow> Some (Rejected e) \<in> set ps"
  by (induction ps rule: first_rejection.induct) auto

lemma first_rejection_None: "first_rejection ps = None \<longleftrightarrow> (\<forall>e. Some (Rejected e) \<notin> set ps)"
  by (induction ps rule: first_rejection.induct) auto

lemma fulfilled_values_Some:
  "fulfilled_values ps = Some rs \<longleftrightarrow> ps = map (\<lambda>r. Some (Fulfilled r)) rs"
  by (induction ps arbitrary: rs rule: fulfilled_values.induct) auto

lemma all_inv_init: "all_inv (Promise_all None ps) ps"
  by (auto simp: all_inv_def Promise_all_def first_rejection_mem split: option.splits settled.splits)

lemma all_inv_update:
  assumes "all_inv a ps" "slot < length ps" "ps ! slot = None"
  shows "all_inv (Promise_all a (ps[slot := Some out])) (ps[slot := Some out])"
proof (cases a)
  case None
  then show ?thesis using all_inv_init [of "ps[slot := Some out]"] by simp
next
  case (Some x)
  show ?thesis
  proof (cases x)
    case (Fulfilled rs)
    with Some assms(1) have "ps = map (\<lambda>r. Some (Fulfilled r)) rs"
      by (simp add: all_inv_def fulfilled_values_Some)
    with assms(2,3) have False by (metis length_map nth_map option.distinct(1))
    then show ?thesis ..
  next
    case (Rejected e)
    with Some assms(1) have "Some (Rejected e) \<in> set ps" by (simp add: all_inv_def)
    then obtain i where i: "i < length ps" "ps ! i = Some (Rejected e)"
      by (metis in_set_conv_nth)
    with assms(3) have "i \<noteq> slot" by auto
    with i have "(ps[slot := Some out]) ! i = Some (Rejected e)" "i < length (ps[slot := Some out])"
      by simp_all
    then have "Some (Rejected e) \<in> set (ps[slot := Some out])" by (metis nth_mem)
    then show ?thesis using Some Rejected by (simp add: all_inv_def Promise_all_def)
  qed
qed

lemma all_inv_step:
  assumes inv: "queue_inv items exec s" and a: "all_inv (all_p s) (promises s)"
    and st: "step K exec cb ev s = Some s'"
  shows "all_inv (all_p s') (promises s')"
proof (cases ev)
  case (Process now)
  with step_Process [of K exec cb now s s'] st a show ?thesis by auto
next
  case (Settle slot now)
  with step_Settle [of K exec cb slot now s s'] st obtain w where
    w: "w \<in> set (workers s)" "slot_of w = slot" and
    s': "s' = worker_done slot (exec (fst w)) (snd (timedExec exec cb (fst w) (snd (snd w)) now s))"
    by blast
  from inv w have "slot < length (started s)" by (auto simp: queue_inv_def)
  with inv have sl: "slot < length items" by (simp add: queue_inv_def)
  with inv w have "promises s ! slot = None" "slot < length (promises s)"
    by (auto simp: queue_inv_def)
  from all_inv_update [OF a this(2) this(1)]
  show ?thesis by (simp add: s' worker_done_fields timedExec_snd)
qed

lemma all_inv_run:
  "queue_inv items exec s \<Longrightarrow> all_inv (all_p s) (promises s) \<Longrightarrow>
   run K exec cb evs s = Some s' \<Longrightarrow> all_inv (all_p s') (promises s')"
proof (induction evs arbitrary: s)
  case Nil
  then show ?case by simp
next
  case (Cons ev evs)
  from Cons.prems(3) obtain s1 where s1: "step K exec cb ev s = Some s1"
    and r: "run K exec cb evs s1 = Some s'" by (auto split: option.splits)
  from Cons.IH [OF queue_inv_step [OF Cons.prems(1) s1] all_inv_step [OF Cons.prems(1,2) s1] r]
  show ?case .
qed

lemma all_inv_queueExec: "all_inv (all_p (queueExec items)) (promises (queueExec items))"
  by (simp add: queueExec_state all_inv_init)

lemma idle_promises:
  assumes "queue_inv items exec s" "idle s"
  shows "promises s = map (\<lambda>item. Some (exec item)) items"
proof -
  from assms have "drop (length (started s)) (zip items [0..<length items]) = []"
    by (simp add: queue_inv_def idle_def)
  then have "length items \<le> length (started s)" by simp
  with assms have "\<forall>i<length items. promises s ! i = Some (exec (items ! i))"
    by (simp add: queue_inv_def idle_def)
  moreover have "length (promises s) = length items" using assms by (simp add: queue_inv_def)
  ultimately show ?thesis by (simp add: list_eq_iff_nth_eq)
qed

lemma idle_all_fulfilled:
  assumes "queue_inv items exec s" "all_inv (all_p s) (promises s)" "idle s"
    and "map exec items = map Fulfilled rs"
  shows "all_p s = Some (Fulfilled rs)"
proof -
  have "promises s = map (\<lambda>item. Some (exec item)) items" using assms(1,3) by (rule idle_promises)
  also have "\<dots> = map Some (map exec items)" by simp
  also have "\<dots> = map (\<lambda>r. Some (Fulfilled r)) rs" unfolding assms(4) by simp
  finally have p: "promises s = map (\<lambda>r. Some (Fulfilled r)) rs" .
  then have fv: "fulfilled_values (promises s) = Some rs" by (simp add: fulfilled_values_Some)
  have nr: "\<forall>e. Some (Rejected e) \<notin> set (promises s)" unfolding p by auto
  show ?thesis
  proof (cases "all_p s")
    case None
    with assms(2) fv show ?thesis by (simp add: all_inv_def)
  next
    case (Some x)
    with assms(2) fv nr show ?thesis by (cases x) (auto simp: all_inv_def)
  qed
qed

subsection \<open>The counter and the log\<close>

lemma count_fulfilled_update:
  "i < length ps \<Longrightarrow> ps ! i = None \<Longrightarrow>
   length (filter is_fulfilled (ps[i := Some out])) =
   length (filter is_fulfilled ps) + (if is_fulfilled (Some out) then 1 else 0)"
proof (induction ps arbitrary: i)
  case Nil
  then show ?case by simp
next
  case (Cons p ps)
  then show ?case by (cases i) auto
qed

lemma timedExec_Some_Fulfilled:
  "exec item = Fulfilled r \<Longrightarrow>
   timedExec exec (Some label) item st now s =
     (Fulfilled r, s\<lparr>numDone := numDone s + 1,
        logged := logged s @ [\<lparr>sl_index = numDone s + 1, sl_total = length (promises s),
                      sl_label = label item, sl_elapsed = now - st\<rparr>]\<rparr>)"
  by (simp add: timedExec_def)

lemma timedExec_Rejected:
  "exec item = Rejected e \<Longrightarrow> timedExec exec cb item st now s = (Rejected e, s)"
  by (simp add: timedExec_def split: option.splits)

lemma timedExec_None: "timedExec exec None item st now s = (exec item, s)"
  by (simp add: timedExec_def)

lemma report_inv_step:
  assumes inv: "queue_inv items exec s" and r: "report_inv s"
    and st: "step K exec (Some label) ev s = Some s'"
  shows "report_inv s'"
proof (cases ev)
  case (Process now)
  with step_Process [of K exec "Some label" now s s'] st r show ?thesis
    by (auto simp: report_inv_def)
next
  case (Settle slot now)
  with step_Settle [of K exec "Some label" slot now s s'] st obtain w where
    w: "w \<in> set (workers s)" "slot_of w = slot" and
    s': "s' = worker_done slot (exec (fst w))
               (snd (timedExec exec (Some label) (fst w) (snd (snd w)) now s))"
    by blast
  from inv w have "slot < length (started s)" by (auto simp: queue_inv_def)
  with inv have "slot < length items" by (simp add: queue_inv_def)
  with inv w have p: "slot < length (promises s)" "promises s ! slot = None"
    by (auto simp: queue_inv_def)
  note c = count_fulfilled_update [OF p, of "exec (fst w)"]
  show ?thesis
  proof (cases "exec (fst w)")
    case (Fulfilled res)
    with r c show ?thesis
      by (simp add: s' report_inv_def worker_done_fields timedExec_Some_Fulfilled)
  next
    case (Rejected e)
    with r c show ?thesis
      by (simp add: s' report_inv_def worker_done_fields timedExec_Rejected)
  qed
qed

lemma report_inv_run:
  "queue_inv items exec s \<Longrightarrow> report_inv s \<Longrightarrow>
   run K exec (Some label) evs s = Some s' \<Longrightarrow> report_inv s'"
proof (induction evs arbitrary: s)
  case Nil
  then show ?case by simp
next
  case (Cons ev evs)
  from Cons.prems(3) obtain s1 where s1: "step K exec (Some label) ev s = Some s1"
    and r: "run K exec (Some label) evs s1 = Some s'" by (auto split: option.splits)
  from Cons.IH [OF queue_inv_step [OF Cons.prems(1) s1] report_inv_step [OF Cons.prems(1,2) s1] r]
  show ?case .
qed

lemma report_inv_queueExec: "report_inv (queueExec items)"
  by (simp add: report_inv_def queueExec_state)

lemma silent_step:
  "step K exec None ev s = Some s' \<Longrightarrow> numDone s' = numDone s \<and> logged s' = logged s"
  by (cases ev) (auto simp: timedExec_None worker_done_fields split: list.splits if_splits option.splits)

lemma silent_run:
  "run K exec None evs s = Some s' \<Longrightarrow> numDone s' = numDone s \<and> logged s' = logged s"
proof (induction evs arbitrary: s)
  case Nil
  then show ?case by simp
next
  case (Cons ev evs)
  then show ?case by (auto split: option.splits dest: silent_step)
qed

subsection \<open>Lanes, and the promise queueExec returns\<close>

lemma lanes_step:
  assumes l: "length (workers s) \<le> K" and st: "step K exec cb ev s = Some s'"
  shows "length (workers s') \<le> K"
proof (cases ev)
  case (Process now)
  with step_Process [of K exec cb now s s'] st l show ?thesis by auto
next
  case (Settle slot now)
  with st have "step K exec cb (Settle slot now) s = Some s'" by simp
  from step_Settle [OF this] obtain w where "w \<in> set (workers s)" and
    "s' = worker_done slot (exec (fst w)) (snd (timedExec exec cb (fst w) (snd (snd w)) now s))"
    by blast
  from this(2) have "length (workers s') \<le> length (workers s)"
    by (simp add: worker_done_fields timedExec_snd)
  with l show ?thesis by simp
qed

lemma lanes_run:
  "length (workers s) \<le> K \<Longrightarrow> run K exec cb evs s = Some s' \<Longrightarrow> length (workers s') \<le> K"
proof (induction evs arbitrary: s)
  case Nil
  then show ?case by simp
next
  case (Cons ev evs)
  then show ?case by (auto split: option.splits dest: lanes_step)
qed

lemma all_p_stable_step:
  assumes a: "all_p s = Some x" and st: "step K exec cb ev s = Some s'"
  shows "all_p s' = Some x"
proof (cases ev)
  case (Process now)
  with step_Process [of K exec cb now s s'] st a show ?thesis by auto
next
  case (Settle slot now)
  with st have "step K exec cb (Settle slot now) s = Some s'" by simp
  from step_Settle [OF this] obtain w where "w \<in> set (workers s)" and
    "s' = worker_done slot (exec (fst w)) (snd (timedExec exec cb (fst w) (snd (snd w)) now s))"
    by blast
  from this(2) a show ?thesis by (simp add: worker_done_fields timedExec_snd Promise_all_def)
qed

lemma all_p_stable_run:
  "all_p s = Some x \<Longrightarrow> run K exec cb evs s = Some s' \<Longrightarrow> all_p s' = Some x"
proof (induction evs arbitrary: s)
  case Nil
  then show ?case by simp
next
  case (Cons ev evs)
  then show ?case by (auto split: option.splits dest: all_p_stable_step)
qed

lemma first_rejection_update:
  "first_rejection ps = None \<Longrightarrow> slot < length ps \<Longrightarrow>
   first_rejection (ps[slot := Some (Rejected e)]) = Some e"
proof (induction ps arbitrary: slot)
  case Nil
  then show ?case by simp
next
  case (Cons p ps)
  show ?case
  proof (cases p)
    case None
    with Cons show ?thesis by (cases slot) auto
  next
    case (Some x)
    with Cons show ?thesis by (cases x; cases slot) auto
  qed
qed

subsection \<open>Results in input order\<close>

lemma remaining_queueExec: "remaining (queueExec items) = 2 * length items"
  by (simp add: remaining_def queueExec_state)

text \<open>
  C2 (amended). With a concurrency limit \<open>K \<ge> 1\<close> and an operation that fulfils on every
  item (\<open>rs\<close> are its results, in the order of the items): every run of \<open>queueExec\<close> has at
  most \<open>2N\<close> events, is idle exactly after \<open>2N\<close> events and can go on until then; a run to
  the idle queue exists; and whatever the order in which the operations completed, the
  promise \<open>queueExec\<close> returned is then fulfilled with \<open>rs\<close>, an array of length \<open>N\<close>
  whose \<open>i\<close>-th entry is the result of the operation on the \<open>i\<close>-th item.
\<close>

theorem queueExec_results_in_input_order:
  assumes K: "1 \<le> K" and ok: "map exec items = map Fulfilled rs"
  shows "(\<forall>evs s. run K exec cb evs (queueExec items) = Some s \<longrightarrow>
            length evs \<le> 2 * length items
            \<and> (idle s \<longleftrightarrow> length evs = 2 * length items)
            \<and> (\<not> idle s \<longrightarrow> (\<exists>ev s'. step K exec cb ev s = Some s'))
            \<and> (idle s \<longrightarrow> all_p s = Some (Fulfilled rs)))
         \<and> (\<exists>evs s. run K exec cb evs (queueExec items) = Some s \<and> idle s)
         \<and> length rs = length items
         \<and> (\<forall>i<length items. exec (items ! i) = Fulfilled (rs ! i))"
proof (intro conjI allI impI)
  fix evs s assume r: "run K exec cb evs (queueExec items) = Some s"
  have inv: "queue_inv items exec s"
    using queue_inv_init r by (rule queue_inv_run)
  have ai: "all_inv (all_p s) (promises s)"
    using queue_inv_init all_inv_queueExec r by (rule all_inv_run)
  have m: "remaining s + length evs = 2 * length items"
    using remaining_run [OF queue_inv_init r] by (simp add: remaining_queueExec)
  then show "length evs \<le> 2 * length items" by simp
  from m show "idle s \<longleftrightarrow> length evs = 2 * length items" by (auto simp: idle_remaining)
  { assume "\<not> idle s"
    with K show "\<exists>ev s'. step K exec cb ev s = Some s'" by (rule progress_step) }
  { assume "idle s"
    with inv ai show "all_p s = Some (Fulfilled rs)" using ok by (rule idle_all_fulfilled) }
next
  show "\<exists>evs s. run K exec cb evs (queueExec items) = Some s \<and> idle s"
    using K queue_inv_init remaining_queueExec by (rule run_to_idle)
next
  show len: "length rs = length items" using ok by (metis length_map)
  fix i assume "i < length items"
  with len have "map exec items ! i = map Fulfilled rs ! i" using ok by simp
  with \<open>i < length items\<close> len show "exec (items ! i) = Fulfilled (rs ! i)" by simp
qed

theorem queueExec_results_in_input_order_witness:
  "run 2 Fulfilled None [Process 0, Process 0, Settle 1 5, Process 6, Settle 2 7, Settle 0 9]
     (queueExec [''a'', ''b'', ''c''])
   = Some \<lparr>numDone = 0, logged = [], tasks = [], workers = [],
       promises = [Some (Fulfilled ''a''), Some (Fulfilled ''b''), Some (Fulfilled ''c'')],
       all_p = Some (Fulfilled [''a'', ''b'', ''c'']), started = [0, 1, 2]\<rparr>
   \<and> idle \<lparr>numDone = 0, logged = [], tasks = [], workers = [],
       promises = [Some (Fulfilled ''a''), Some (Fulfilled ''b''), Some (Fulfilled ''c'')],
       all_p = Some (Fulfilled [''a'', ''b'', ''c'']), started = [0, 1, 2]\<rparr>"
proof -
  have K: "(1::nat) \<le> 2" by simp
  have ok: "map Fulfilled [''a'', ''b'', ''c''] = map Fulfilled [''a'', ''b'', ''c'']" by simp
  have r: "run 2 Fulfilled None [Process 0, Process 0, Settle 1 5, Process 6, Settle 2 7, Settle 0 9]
     (queueExec [''a'', ''b'', ''c''])
   = Some \<lparr>numDone = 0, logged = [], tasks = [], workers = [],
       promises = [Some (Fulfilled ''a''), Some (Fulfilled ''b''), Some (Fulfilled ''c'')],
       all_p = Some (Fulfilled [''a'', ''b'', ''c'']), started = [0, 1, 2]\<rparr>"
    by (simp add: queueExec_state timedExec_def worker_done_def Promise_all_def upt_rec)
  from queueExec_results_in_input_order [OF K ok, of None] r show ?thesis
    by (simp add: idle_def)
qed

text \<open>
  An operation that rejects: with the items \<open>a\<close>, \<open>b\<close> and an operation that rejects on
  \<open>b\<close>, the run in which both tasks have ended leaves the promise returned by
  \<open>queueExec\<close> rejected; no array of length 2 is returned.
\<close>

theorem queueExec_rejects_counterexample:
  "run 1 (exec_failing_on ''b'') None [Process 0, Settle 0 1, Process 1, Settle 1 2]
     (queueExec [''a'', ''b''])
   = Some \<lparr>numDone = 0, logged = [], tasks = [], workers = [],
       promises = [Some (Fulfilled ''a''), Some (Rejected (Thrown ''b''))],
       all_p = Some (Rejected (Thrown ''b'')), started = [0, 1]\<rparr>"
  by (simp add: queueExec_state timedExec_def worker_done_def Promise_all_def upt_rec
      exec_failing_on_def)

subsection \<open>At most K tasks in flight, started in submission order\<close>

text \<open>
  C9. For every limit \<open>K \<ge> 1\<close> and every list of submitted items, in every state a run
  reaches at most \<open>K\<close> tasks are in flight; the tasks started so far are the first ones in
  submission order and the backlog is the rest in that order; a task is started only
  when fewer than \<open>K\<close> are in flight, it is the next one in submission order, and it can
  be started as soon as a lane is free.
\<close>

theorem queue_at_most_K_in_flight:
  assumes K: "1 \<le> K" and r: "run K exec cb evs (queueExec items) = Some s"
  shows "length (workers s) \<le> K
     \<and> started s = [0..<length (started s)] \<and> length (started s) \<le> length items
     \<and> tasks s = drop (length (started s)) (zip items [0..<length items])
     \<and> (\<forall>now s'. step K exec cb (Process now) s = Some s' \<longrightarrow>
           length (workers s) < K
           \<and> started s' = started s @ [length (started s)]
           \<and> workers s' = workers s @ [(items ! length (started s), length (started s), now)])
     \<and> (\<forall>now. length (workers s) < K \<and> tasks s \<noteq> [] \<longrightarrow>
           (\<exists>s'. step K exec cb (Process now) s = Some s'))"
proof -
  have inv: "queue_inv items exec s"
    using queue_inv_init r by (rule queue_inv_run)
  have "length (workers (queueExec items :: ('a, 'b) queue_state)) \<le> K" by (simp add: queueExec_state)
  then have lanes: "length (workers s) \<le> K" using r by (rule lanes_run)
  have start: "\<forall>now s'. step K exec cb (Process now) s = Some s' \<longrightarrow>
           length (workers s) < K
           \<and> started s' = started s @ [length (started s)]
           \<and> workers s' = workers s @ [(items ! length (started s), length (started s), now)]"
  proof (intro allI impI)
    fix now s' assume st: "step K exec cb (Process now) s = Some s'"
    from step_Process [OF st] obtain item slot rest where
      t: "tasks s = (item, slot) # rest" and l: "length (workers s) < K" and
      s': "s' = s\<lparr>tasks := rest, workers := workers s @ [(item, slot, now)], started := started s @ [slot]\<rparr>"
      by blast
    from inv t have "drop (length (started s)) (zip items [0..<length items]) = (item, slot) # rest"
      by (simp add: queue_inv_def)
    from drop_zip_Cons [OF this] l s'
    show "length (workers s) < K
           \<and> started s' = started s @ [length (started s)]
           \<and> workers s' = workers s @ [(items ! length (started s), length (started s), now)]"
      by simp
  qed
  have can: "\<forall>now. length (workers s) < K \<and> tasks s \<noteq> [] \<longrightarrow>
           (\<exists>s'. step K exec cb (Process now) s = Some s')"
  proof (intro allI impI)
    fix now assume a: "length (workers s) < K \<and> tasks s \<noteq> []"
    then obtain item slot rest where "tasks s = (item, slot) # rest"
      by (cases "tasks s") auto
    with a show "\<exists>s'. step K exec cb (Process now) s = Some s'" by simp
  qed
  have st: "started s = [0..<length (started s)]" and le: "length (started s) \<le> length items"
    and ta: "tasks s = drop (length (started s)) (zip items [0..<length items])"
    using inv unfolding queue_inv_def by blast+
  show ?thesis by (intro conjI lanes st le ta start can)
qed

theorem queue_at_most_K_in_flight_witness:
  "run 2 Fulfilled None [Process 0, Process 0, Settle 1 5, Process 6]
     (queueExec [''a'', ''b'', ''c'', ''d''])
   = Some \<lparr>numDone = 0, logged = [], tasks = [(''d'', 3)],
       workers = [(''a'', 0, 0), (''c'', 2, 6)],
       promises = [None, Some (Fulfilled ''b''), None, None],
       all_p = None, started = [0, 1, 2]\<rparr>
   \<and> step 2 Fulfilled None (Process 7)
       \<lparr>numDone = 0, logged = [], tasks = [(''d'', 3)],
       workers = [(''a'', 0, 0), (''c'', 2, 6)],
       promises = [None, Some (Fulfilled ''b''), None, None],
       all_p = None, started = [0, 1, 2]\<rparr> = None"
proof -
  have K: "(1::nat) \<le> 2" by simp
  have r: "run 2 Fulfilled None [Process 0, Process 0, Settle 1 5, Process 6]
     (queueExec [''a'', ''b'', ''c'', ''d''])
   = Some \<lparr>numDone = 0, logged = [], tasks = [(''d'', 3)],
       workers = [(''a'', 0, 0), (''c'', 2, 6)],
       promises = [None, Some (Fulfilled ''b''), None, None],
       all_p = None, started = [0, 1, 2]\<rparr>"
    by (simp add: queueExec_state timedExec_def worker_done_def Promise_all_def upt_rec)
  from queue_at_most_K_in_flight [OF K r] r show ?thesis by simp
qed

subsection \<open>A rejecting operation\<close>

text \<open>
  C4. When the operation of a task in flight rejects: only the promise of that task is
  rejected, the backlog and the other tasks in flight are left as they are, and from
  there every run to the idle queue exists (for \<open>K \<ge> 1\<close>) and settles every promise with
  the outcome of the operation on its own item. The promise returned by \<open>queueExec\<close> is
  pending exactly while no promise is rejected; it is rejected with the reason of this
  rejection at once when it is the first, keeps the reason of an earlier one otherwise,
  and stays rejected.
\<close>

theorem rejection_isolated_aggregate_fails_fast:
  assumes r: "run K exec cb evs (queueExec items) = Some s"
      and st: "step K exec cb (Settle slot now) s = Some s'"
      and rej: "exec (items ! slot) = Rejected e"
  shows "promises s' = (promises s)[slot := Some (Rejected e)]
       \<and> tasks s' = tasks s
       \<and> workers s' = filter (\<lambda>w. fst (snd w) \<noteq> slot) (workers s)
       \<and> (all_p s = None \<longleftrightarrow> (\<forall>e'. Some (Rejected e') \<notin> set (promises s)))
       \<and> (all_p s = None \<longrightarrow> all_p s' = Some (Rejected e))
       \<and> (\<forall>x. all_p s = Some x \<longrightarrow> all_p s' = Some x)
       \<and> (\<exists>e'. all_p s' = Some (Rejected e'))
       \<and> (\<forall>evs' s''. run K exec cb evs' s' = Some s'' \<longrightarrow>
             all_p s'' = all_p s'
             \<and> (idle s'' \<longrightarrow> promises s'' = map (\<lambda>item. Some (exec item)) items))
       \<and> (1 \<le> K \<longrightarrow> (\<exists>evs' s''. run K exec cb evs' s' = Some s'' \<and> idle s''))"
proof -
  have inv: "queue_inv items exec s"
    using queue_inv_init r by (rule queue_inv_run)
  have ai: "all_inv (all_p s) (promises s)"
    using queue_inv_init all_inv_queueExec r by (rule all_inv_run)
  have inv': "queue_inv items exec s'" using inv st by (rule queue_inv_step)
  have ai': "all_inv (all_p s') (promises s')" using inv ai st by (rule all_inv_step)
  from step_Settle [OF st] obtain w where
    w: "w \<in> set (workers s)" "slot_of w = slot" and
    s': "s' = worker_done slot (exec (fst w)) (snd (timedExec exec cb (fst w) (snd (snd w)) now s))"
    by blast
  from inv w have fw: "fst w = items ! slot" and "slot < length (started s)"
    by (auto simp: queue_inv_def)
  with inv have "slot < length items" by (simp add: queue_inv_def)
  with inv w have p: "slot < length (promises s)" "promises s ! slot = None"
    by (auto simp: queue_inv_def)
  have c1: "promises s' = (promises s)[slot := Some (Rejected e)]"
    and c2: "tasks s' = tasks s"
    and c3: "workers s' = filter (\<lambda>w. fst (snd w) \<noteq> slot) (workers s)"
    and a': "all_p s' = Promise_all (all_p s) ((promises s)[slot := Some (Rejected e)])"
    by (simp_all add: s' fw rej worker_done_fields timedExec_snd)
  have notful: "\<And>rs. all_p s \<noteq> Some (Fulfilled rs)"
  proof
    fix rs assume "all_p s = Some (Fulfilled rs)"
    with ai have "promises s = map (\<lambda>r. Some (Fulfilled r)) rs"
      by (simp add: all_inv_def fulfilled_values_Some)
    with p show False by (metis length_map nth_map option.distinct(1))
  qed
  have c4: "all_p s = None \<longleftrightarrow> (\<forall>e'. Some (Rejected e') \<notin> set (promises s))"
  proof
    assume "all_p s = None"
    with ai show "\<forall>e'. Some (Rejected e') \<notin> set (promises s)"
      by (simp add: all_inv_def first_rejection_None)
  next
    assume n: "\<forall>e'. Some (Rejected e') \<notin> set (promises s)"
    show "all_p s = None"
    proof (cases "all_p s")
      case None
      then show ?thesis .
    next
      case (Some x)
      with ai n notful show ?thesis by (cases x) (auto simp: all_inv_def)
    qed
  qed
  have c5: "all_p s = None \<longrightarrow> all_p s' = Some (Rejected e)"
  proof
    assume n: "all_p s = None"
    with ai have "first_rejection (promises s) = None" by (simp add: all_inv_def)
    from first_rejection_update [OF this p(1)] n show "all_p s' = Some (Rejected e)"
      by (simp add: a' Promise_all_def)
  qed
  have c6: "\<forall>x. all_p s = Some x \<longrightarrow> all_p s' = Some x"
    by (simp add: a' Promise_all_def)
  have c7: "\<exists>e'. all_p s' = Some (Rejected e')"
  proof (cases "all_p s")
    case None
    with c5 show ?thesis by blast
  next
    case (Some x)
    with notful c6 show ?thesis by (cases x) auto
  qed
  have c8: "\<forall>evs' s''. run K exec cb evs' s' = Some s'' \<longrightarrow>
             all_p s'' = all_p s'
             \<and> (idle s'' \<longrightarrow> promises s'' = map (\<lambda>item. Some (exec item)) items)"
  proof (intro allI impI conjI)
    fix evs' s'' assume r': "run K exec cb evs' s' = Some s''"
    from c7 obtain e' where "all_p s' = Some (Rejected e')" by blast
    from all_p_stable_run [OF this r'] this show "all_p s'' = all_p s'" by simp
    assume "idle s''"
    with queue_inv_run [OF inv' r'] show "promises s'' = map (\<lambda>item. Some (exec item)) items"
      by (rule idle_promises)
  qed
  have c9: "1 \<le> K \<longrightarrow> (\<exists>evs' s''. run K exec cb evs' s' = Some s'' \<and> idle s'')"
    using run_to_idle [OF _ inv' refl] by blast
  show ?thesis by (intro conjI c1 c2 c3 c4 c5 c6 c7 c8 c9)
qed

theorem rejection_isolated_aggregate_fails_fast_witness:
  "run 2 (exec_failing_on ''b'') None [Process 0, Process 0] (queueExec [''a'', ''b'', ''c''])
   = Some \<lparr>numDone = 0, logged = [], tasks = [(''c'', 2)],
       workers = [(''a'', 0, 0), (''b'', 1, 0)],
       promises = [None, None, None], all_p = None, started = [0, 1]\<rparr>
   \<and> step 2 (exec_failing_on ''b'') None (Settle 1 5)
       \<lparr>numDone = 0, logged = [], tasks = [(''c'', 2)],
        workers = [(''a'', 0, 0), (''b'', 1, 0)],
        promises = [None, None, None], all_p = None, started = [0, 1]\<rparr>
   = Some \<lparr>numDone = 0, logged = [], tasks = [(''c'', 2)],
       workers = [(''a'', 0, 0)],
       promises = [None, Some (Rejected (Thrown ''b'')), None],
       all_p = Some (Rejected (Thrown ''b'')), started = [0, 1]\<rparr>
   \<and> run 2 (exec_failing_on ''b'') None [Process 6, Settle 0 7, Settle 2 8]
       \<lparr>numDone = 0, logged = [], tasks = [(''c'', 2)],
       workers = [(''a'', 0, 0)],
       promises = [None, Some (Rejected (Thrown ''b'')), None],
       all_p = Some (Rejected (Thrown ''b'')), started = [0, 1]\<rparr>
   = Some \<lparr>numDone = 0, logged = [], tasks = [], workers = [],
       promises = [Some (Fulfilled ''a''), Some (Rejected (Thrown ''b'')), Some (Fulfilled ''c'')],
       all_p = Some (Rejected (Thrown ''b'')), started = [0, 1, 2]\<rparr>"
proof -
  have r: "run 2 (exec_failing_on ''b'') None [Process 0, Process 0] (queueExec [''a'', ''b'', ''c''])
   = Some \<lparr>numDone = 0, logged = [], tasks = [(''c'', 2)],
       workers = [(''a'', 0, 0), (''b'', 1, 0)],
       promises = [None, None, None], all_p = None, started = [0, 1]\<rparr>"
    by (simp add: queueExec_state Promise_all_def upt_rec)
  have st: "step 2 (exec_failing_on ''b'') None (Settle 1 5)
       \<lparr>numDone = 0, logged = [], tasks = [(''c'', 2)],
        workers = [(''a'', 0, 0), (''b'', 1, 0)],
        promises = [None, None, None], all_p = None, started = [0, 1]\<rparr>
   = Some \<lparr>numDone = 0, logged = [], tasks = [(''c'', 2)],
       workers = [(''a'', 0, 0)],
       promises = [None, Some (Rejected (Thrown ''b'')), None],
       all_p = Some (Rejected (Thrown ''b'')), started = [0, 1]\<rparr>"
    by (simp add: timedExec_def worker_done_def Promise_all_def exec_failing_on_def)
  have rej: "exec_failing_on ''b'' ([''a'', ''b'', ''c''] ! 1) = Rejected (Thrown ''b'')"
    by (simp add: exec_failing_on_def)
  have r2: "run 2 (exec_failing_on ''b'') None [Process 6, Settle 0 7, Settle 2 8]
       \<lparr>numDone = 0, logged = [], tasks = [(''c'', 2)],
       workers = [(''a'', 0, 0)],
       promises = [None, Some (Rejected (Thrown ''b'')), None],
       all_p = Some (Rejected (Thrown ''b'')), started = [0, 1]\<rparr>
   = Some \<lparr>numDone = 0, logged = [], tasks = [], workers = [],
       promises = [Some (Fulfilled ''a''), Some (Rejected (Thrown ''b'')), Some (Fulfilled ''c'')],
       all_p = Some (Rejected (Thrown ''b'')), started = [0, 1, 2]\<rparr>"
    by (simp add: timedExec_def worker_done_def Promise_all_def exec_failing_on_def)
  from rejection_isolated_aggregate_fails_fast [OF r st rej] r st r2 show ?thesis by simp
qed

subsection \<open>Status lines\<close>

lemma digit_in: "digit d \<in> set ''0123456789''"
proof -
  have "d mod 10 < length ''0123456789''" by simp
  then show ?thesis unfolding digit_def by (rule nth_mem)
qed

lemma show_nat_digits: "set (show_nat n) \<subseteq> set ''0123456789''"
proof (induction n rule: show_nat.induct)
  case (1 n)
  show ?case
  proof (cases "n < 10")
    case True
    then have "show_nat n = [digit n]" by (simp add: show_nat.simps)
    then show ?thesis using digit_in [of n] by simp
  next
    case False
    then have "show_nat n = show_nat (n div 10) @ [digit n]" by (subst show_nat.simps) simp
    then show ?thesis using 1 [OF False] digit_in [of n] by simp
  qed
qed

lemma toFixed3_shape:
  "\<exists>whole frac. toFixed3 ms = whole @ ''.'' @ frac \<and> length frac = 3
     \<and> set frac \<subseteq> set ''0123456789'' \<and> CHR ''.'' \<notin> set whole
     \<and> whole = (if ms < 0 then ''-'' else []) @ show_nat (nat \<bar>ms\<bar> div 1000)
     \<and> frac = [digit (nat \<bar>ms\<bar> div 100), digit (nat \<bar>ms\<bar> div 10), digit (nat \<bar>ms\<bar>)]"
proof -
  let ?w = "(if ms < 0 then ''-'' else []) @ show_nat (nat \<bar>ms\<bar> div 1000)"
  let ?f = "[digit (nat \<bar>ms\<bar> div 100), digit (nat \<bar>ms\<bar> div 10), digit (nat \<bar>ms\<bar>)]"
  have 1: "toFixed3 ms = ?w @ ''.'' @ ?f" by (simp add: toFixed3_def)
  have 2: "length ?f = 3" by simp
  have 3: "set ?f \<subseteq> set ''0123456789''"
    using digit_in [of "nat \<bar>ms\<bar> div 100"] digit_in [of "nat \<bar>ms\<bar> div 10"] digit_in [of "nat \<bar>ms\<bar>"]
    by simp
  have "CHR ''.'' \<notin> set (show_nat (nat \<bar>ms\<bar> div 1000))"
    using show_nat_digits [of "nat \<bar>ms\<bar> div 1000"] by auto
  then have 4: "CHR ''.'' \<notin> set ?w" by simp
  show ?thesis by (intro exI [of _ ?w] exI [of _ ?f] conjI 1 2 3 4 refl)
qed

text \<open>
  A completed task without a status line: of the three tasks of this run, all settled,
  the one whose operation rejects (\<open>b\<close>) has logged nothing; two lines are logged.
\<close>

theorem rejected_task_logs_nothing_counterexample:
  "run 2 (exec_failing_on ''b'') (Some id)
     [Process 0, Process 3, Settle 1 5, Process 6, Settle 2 1234, Settle 0 2500]
     (queueExec [''a'', ''b'', ''c''])
   = Some \<lparr>numDone = 2,
       logged = [\<lparr>sl_index = 1, sl_total = 3, sl_label = ''c'', sl_elapsed = 1228\<rparr>,
                 \<lparr>sl_index = 2, sl_total = 3, sl_label = ''a'', sl_elapsed = 2500\<rparr>],
       tasks = [], workers = [],
       promises = [Some (Fulfilled ''a''), Some (Rejected (Thrown ''b'')), Some (Fulfilled ''c'')],
       all_p = Some (Rejected (Thrown ''b'')), started = [0, 1, 2]\<rparr>"
  by (simp add: queueExec_state timedExec_def worker_done_def Promise_all_def upt_rec
      exec_failing_on_def)

text \<open>
  C6 (amended). Without a message callback \<open>timedExec\<close> is the operation itself, with its
  result or its rejection and no change of the counter or the log, and a run logs
  nothing. With a message callback, in every state of a run there is one status line per
  task whose operation has returned a result; when the operation of a task returns a
  result, its promise is fulfilled with that result and one line is logged: the
  completion index counted from 1, the number of submitted items, the label of the item,
  and the elapsed time since the start of the task, printed as
  \<open>[index/total] label - seconds\<close> with the seconds carrying exactly three decimals
  (the whole seconds, a point, and the three digits of the milliseconds). A task whose
  operation rejects logs no line and its rejection is passed on.
\<close>

theorem timedExec_reports_each_completion:
  "timedExec exec None item startTime now s0 = (exec item, s0)
   \<and> (run K exec None evs (queueExec items) = Some s \<longrightarrow> logged s = [] \<and> numDone s = 0)
   \<and> (run K exec (Some label) evs (queueExec items) = Some s \<longrightarrow>
        length (logged s) = length (filter is_fulfilled (promises s))
        \<and> numDone s = length (logged s)
        \<and> (\<forall>slot now s'. step K exec (Some label) (Settle slot now) s = Some s' \<longrightarrow>
             (\<exists>startTime. (items ! slot, slot, startTime) \<in> set (workers s)
                \<and> promises s' = (promises s)[slot := Some (exec (items ! slot))]
                \<and> (\<forall>e. exec (items ! slot) = Rejected e \<longrightarrow> logged s' = logged s)
                \<and> (\<forall>r. exec (items ! slot) = Fulfilled r \<longrightarrow>
                      logged s' = logged s @
                        [\<lparr>sl_index = length (logged s) + 1, sl_total = length items,
                          sl_label = label (items ! slot), sl_elapsed = now - startTime\<rparr>]
                      \<and> map format_status (logged s') = map format_status (logged s) @
                          [''['' @ show_nat (length (logged s) + 1) @ ''/'' @
                           show_nat (length items) @ ''] '' @ label (items ! slot) @ '' - '' @
                           toFixed3 (now - startTime) @ ''s'']))))
   \<and> (\<exists>whole frac. toFixed3 ms = whole @ ''.'' @ frac \<and> length frac = 3
         \<and> set frac \<subseteq> set ''0123456789'' \<and> CHR ''.'' \<notin> set whole
         \<and> whole = (if ms < 0 then ''-'' else []) @ show_nat (nat \<bar>ms\<bar> div 1000)
         \<and> frac = [digit (nat \<bar>ms\<bar> div 100), digit (nat \<bar>ms\<bar> div 10), digit (nat \<bar>ms\<bar>)])"
proof (intro conjI impI allI)
  show "timedExec exec None item startTime now s0 = (exec item, s0)" by (rule timedExec_None)
next
  assume r: "run K exec None evs (queueExec items) = Some s"
  from silent_run [OF r] show "logged s = []" and "numDone s = 0"
    by (simp_all add: queueExec_state)
next
  assume r: "run K exec (Some label) evs (queueExec items) = Some s"
  have inv: "queue_inv items exec s" using queue_inv_init r by (rule queue_inv_run)
  have rep: "report_inv s" using queue_inv_init report_inv_queueExec r by (rule report_inv_run)
  from rep have "length (map sl_index (logged s)) = length [1..<Suc (numDone s)]"
    unfolding report_inv_def by presburger
  then show nd: "numDone s = length (logged s)" by simp
  with rep show "length (logged s) = length (filter is_fulfilled (promises s))"
    by (simp add: report_inv_def)
  fix slot now s' assume st: "step K exec (Some label) (Settle slot now) s = Some s'"
  from step_Settle [OF st] obtain w where
    w: "w \<in> set (workers s)" "slot_of w = slot" and
    s': "s' = worker_done slot (exec (fst w))
              (snd (timedExec exec (Some label) (fst w) (snd (snd w)) now s))"
    by blast
  from inv w have fw: "fst w = items ! slot" by (auto simp: queue_inv_def)
  have weq: "w = (items ! slot, slot, snd (snd w))"
    using fw w(2) by (cases w) (simp add: slot_of_def)
  have len: "length (promises s) = length items" using inv by (simp add: queue_inv_def)
  let ?st = "snd (snd w)"
  have a: "(items ! slot, slot, ?st) \<in> set (workers s)" using w(1) weq by simp
  have b: "promises s' = (promises s)[slot := Some (exec (items ! slot))]"
    by (simp add: s' fw worker_done_fields timedExec_snd)
  have c: "\<forall>e. exec (items ! slot) = Rejected e \<longrightarrow> logged s' = logged s"
    by (simp add: s' fw worker_done_fields timedExec_Rejected)
  have d: "\<forall>r. exec (items ! slot) = Fulfilled r \<longrightarrow>
                      logged s' = logged s @
                        [\<lparr>sl_index = length (logged s) + 1, sl_total = length items,
                          sl_label = label (items ! slot), sl_elapsed = now - ?st\<rparr>]
                      \<and> map format_status (logged s') = map format_status (logged s) @
                          [''['' @ show_nat (length (logged s) + 1) @ ''/'' @
                           show_nat (length items) @ ''] '' @ label (items ! slot) @ '' - '' @
                           toFixed3 (now - ?st) @ ''s'']"
    by (simp add: s' fw worker_done_fields timedExec_Some_Fulfilled nd len format_status_def)
  from a b c d
  show "\<exists>startTime. (items ! slot, slot, startTime) \<in> set (workers s)
                \<and> promises s' = (promises s)[slot := Some (exec (items ! slot))]
                \<and> (\<forall>e. exec (items ! slot) = Rejected e \<longrightarrow> logged s' = logged s)
                \<and> (\<forall>r. exec (items ! slot) = Fulfilled r \<longrightarrow>
                      logged s' = logged s @
                        [\<lparr>sl_index = length (logged s) + 1, sl_total = length items,
                          sl_label = label (items ! slot), sl_elapsed = now - startTime\<rparr>]
                      \<and> map format_status (logged s') = map format_status (logged s) @
                          [''['' @ show_nat (length (logged s) + 1) @ ''/'' @
                           show_nat (length items) @ ''] '' @ label (items ! slot) @ '' - '' @
                           toFixed3 (now - startTime) @ ''s''])"
    by (intro exI [of _ ?st] conjI)
next
  show "\<exists>whole frac. toFixed3 ms = whole @ ''.'' @ frac \<and> length frac = 3
         \<and> set frac \<subseteq> set ''0123456789'' \<and> CHR ''.'' \<notin> set whole
         \<and> whole = (if ms < 0 then ''-'' else []) @ show_nat (nat \<bar>ms\<bar> div 1000)
         \<and> frac = [digit (nat \<bar>ms\<bar> div 100), digit (nat \<bar>ms\<bar> div 10), digit (nat \<bar>ms\<bar>)]"
    by (rule toFixed3_shape)
qed

subsection \<open>The state clean starts from, and the invariant of its runs\<close>

lemma length_number_calls: "length (number_calls clock k inc) = length inc"
  by (induction inc arbitrary: k) auto

lemma nth_number_calls:
  "i < length inc \<Longrightarrow>
   number_calls clock k inc ! i = (fst (inc ! i), snd (inc ! i), k + i, clock (k + i))"
proof (induction inc arbitrary: k i)
  case Nil
  then show ?case by simp
next
  case (Cons c rest)
  then show ?case by (cases i) auto
qed

lemma clean_loop_ok:
  assumes "\<forall>pkg \<in> set packages. json_scripts (packageJson pkg) \<noteq> None"
  shows "clean_loop clock packages s =
     Inr (s\<lparr>cleanP := cleanP s @ replicate (length (included packages)) None,
            inflight := inflight s @ number_calls clock (length (cleanP s)) (included packages)\<rparr>)"
  using assms
proof (induction packages arbitrary: s)
  case Nil
  then show ?case by simp
next
  case (Cons pkg rest)
  then obtain scripts where sc: "json_scripts (packageJson pkg) = Some scripts" by auto
  have rest: "\<forall>pkg \<in> set rest. json_scripts (packageJson pkg) \<noteq> None" using Cons.prems by simp
  note IH = Cons.IH [OF rest]
  show ?case
  proof (cases "scripts ''clean''")
    case None
    with sc show ?thesis by (simp add: getScript_clean clean_script_of_def IH)
  next
    case (Some script)
    show ?thesis
    proof (cases "script = []")
      case True
      with sc Some show ?thesis by (simp add: getScript_clean clean_script_of_def IH)
    next
      case False
      with sc Some show ?thesis
        by (simp add: getScript_clean clean_script_of_def IH replicate_app_Cons_same)
    qed
  qed
qed

lemma clean_ok:
  assumes "\<forall>pkg \<in> set packages. json_scripts (packageJson pkg) \<noteq> None"
  shows "clean clock packages =
     Inr \<lparr>numDone = 0, logged = [],
          cleanP = replicate (length (included packages)) None,
          inflight = number_calls clock 0 (included packages),
          all_cleanP = Promise_all None (replicate (length (included packages)) None)\<rparr>"
  by (simp add: clean_def clean_loop_ok [OF assms])

lemma included_filter:
  "map fst (included packages) = filter (\<lambda>pkg. clean_script_of pkg \<noteq> None) packages"
  by (induction packages) (auto split: option.splits)

lemma mem_number_calls:
  assumes "c \<in> set (number_calls clock 0 inc)"
  shows "slot_of_call c < length inc
         \<and> c = (fst (inc ! slot_of_call c), snd (inc ! slot_of_call c), slot_of_call c,
                clock (slot_of_call c))"
proof -
  from assms obtain i where i: "i < length (number_calls clock 0 inc)"
    and c: "number_calls clock 0 inc ! i = c" by (metis in_set_conv_nth)
  from i have i': "i < length inc" by (simp add: length_number_calls)
  from nth_number_calls [OF i', of clock 0] c
  have "c = (fst (inc ! i), snd (inc ! i), i, clock i)" by simp
  then show ?thesis using i' by (simp add: slot_of_call_def)
qed

lemma map_slot_number_calls: "map slot_of_call (number_calls clock k inc) = [k..<k + length inc]"
proof (induction inc arbitrary: k)
  case Nil
  then show ?case by simp
next
  case (Cons c rest)
  have "length (c # rest) = Suc (length rest)" by simp
  then have "[k..<k + length (c # rest)] = k # [Suc k..<Suc k + length rest]"
    by (simp only: upt_add_Suc)
  then show ?case using Cons [of "Suc k"] by (simp add: slot_of_call_def del: upt_Suc)
qed

lemma clean_inv_init:
  "clean_inv executor clock inc
     \<lparr>numDone = 0, logged = [], cleanP = replicate (length inc) None,
      inflight = number_calls clock 0 inc,
      all_cleanP = Promise_all None (replicate (length inc) None)\<rparr>"
proof -
  have d: "distinct (map slot_of_call (number_calls clock 0 inc))"
    by (simp add: map_slot_number_calls)
  have s: "slot_of_call ` set (number_calls clock 0 inc) = {..<length inc}"
    using map_slot_number_calls [of clock 0 inc]
    by (metis add_0 atLeast_upt set_map)
  have m: "\<forall>c \<in> set (number_calls clock 0 inc). slot_of_call c < length inc
            \<and> c = (fst (inc ! slot_of_call c), snd (inc ! slot_of_call c), slot_of_call c,
                   clock (slot_of_call c))"
    using mem_number_calls by blast
  show ?thesis unfolding clean_inv_def using d s m by simp
qed

lemma find_call:
  "find (\<lambda>c. fst (snd (snd c)) = k) cs = Some c \<Longrightarrow> c \<in> set cs \<and> slot_of_call c = k"
  by (induction cs) (auto simp: slot_of_call_def split: if_splits)

lemma clean_step_Some:
  assumes "clean_step status executor chalk ev s = Some s'"
  shows "\<exists>c. c \<in> set (inflight s) \<and> slot_of_call c = fst ev
     \<and> cleanP s' = (cleanP s)[fst ev := Some (Fulfilled (executor (fst (snd c)) (fst c)))]
     \<and> inflight s' = filter (\<lambda>c. slot_of_call c \<noteq> fst ev) (inflight s)
     \<and> all_cleanP s' = Promise_all (all_cleanP s)
          ((cleanP s)[fst ev := Some (Fulfilled (executor (fst (snd c)) (fst c)))])
     \<and> (\<not> status \<longrightarrow> numDone s' = numDone s \<and> logged s' = logged s)
     \<and> (status \<longrightarrow> numDone s' = numDone s + 1
          \<and> logged s' = logged s @
               [\<lparr>sl_index = numDone s + 1, sl_total = length (cleanP s),
                 sl_label = nameColored chalk (fst c) @ '': '' @ fst (snd c),
                 sl_elapsed = snd ev - snd (snd (snd c))\<rparr>])"
proof -
  from assms obtain c where f: "find (\<lambda>c. fst (snd (snd c)) = fst ev) (inflight s) = Some c"
    by (auto simp: clean_step_def split: option.splits)
  obtain pkg script slot st where c: "c = (pkg, script, slot, st)" by (cases c) auto
  from find_call [OF f] have m: "c \<in> set (inflight s)" "slot_of_call c = fst ev" by auto
  then have sl: "slot = fst ev" using c by (simp add: slot_of_call_def)
  from assms f c sl have
    "s' = (snd (execCleanScript status executor chalk pkg script st (snd ev) s))
           \<lparr>cleanP := (cleanP (snd (execCleanScript status executor chalk pkg script st (snd ev) s)))
                [fst ev := Some (Fulfilled (executor script pkg))],
             inflight := filter (\<lambda>c. fst (snd (snd c)) \<noteq> fst ev)
                (inflight (snd (execCleanScript status executor chalk pkg script st (snd ev) s))),
             all_cleanP := Promise_all
                (all_cleanP (snd (execCleanScript status executor chalk pkg script st (snd ev) s)))
                ((cleanP (snd (execCleanScript status executor chalk pkg script st (snd ev) s)))
                   [fst ev := Some (Fulfilled (executor script pkg))])\<rparr>"
    by (auto simp: clean_step_def execCleanScript_def Let_def)
  then have "cleanP s' = (cleanP s)[fst ev := Some (Fulfilled (executor (fst (snd c)) (fst c)))]
     \<and> inflight s' = filter (\<lambda>c. slot_of_call c \<noteq> fst ev) (inflight s)
     \<and> all_cleanP s' = Promise_all (all_cleanP s)
          ((cleanP s)[fst ev := Some (Fulfilled (executor (fst (snd c)) (fst c)))])
     \<and> (\<not> status \<longrightarrow> numDone s' = numDone s \<and> logged s' = logged s)
     \<and> (status \<longrightarrow> numDone s' = numDone s + 1
          \<and> logged s' = logged s @
               [\<lparr>sl_index = numDone s + 1, sl_total = length (cleanP s),
                 sl_label = nameColored chalk (fst c) @ '': '' @ fst (snd c),
                 sl_elapsed = snd ev - snd (snd (snd c))\<rparr>])"
    by (simp add: c execCleanScript_def Let_def slot_of_call_def)
  with m show ?thesis by blast
qed

lemma length_filter_distinct_call:
  "distinct (map slot_of_call cs) \<Longrightarrow> c \<in> set cs \<Longrightarrow>
   Suc (length (filter (\<lambda>v. slot_of_call v \<noteq> slot_of_call c) cs)) = length cs"
proof (induction cs)
  case Nil
  then show ?case by simp
next
  case (Cons v cs)
  show ?case
  proof (cases "v = c")
    case True
    have "slot_of_call c \<notin> slot_of_call ` set cs" using Cons.prems True by simp
    then have "\<forall>u \<in> set cs. slot_of_call u \<noteq> slot_of_call c" by (metis imageI)
    then have "filter (\<lambda>v. slot_of_call v \<noteq> slot_of_call c) cs = cs" by (simp add: filter_id_conv)
    then show ?thesis using True by simp
  next
    case False
    then have "c \<in> set cs" using Cons.prems by simp
    moreover have "slot_of_call v \<notin> slot_of_call ` set cs" using Cons.prems by simp
    then have "slot_of_call v \<noteq> slot_of_call c" using \<open>c \<in> set cs\<close> by (metis imageI)
    ultimately show ?thesis using Cons by simp
  qed
qed

lemma clean_inv_step:
  assumes inv: "clean_inv executor clock inc s"
    and st: "clean_step status executor chalk ev s = Some s'"
  shows "clean_inv executor clock inc s' \<and> Suc (length (inflight s')) = length (inflight s)"
proof -
  from clean_step_Some [OF st] obtain c where
    c: "c \<in> set (inflight s)" "slot_of_call c = fst ev" and
    cp: "cleanP s' = (cleanP s)[fst ev := Some (Fulfilled (executor (fst (snd c)) (fst c)))]" and
    fl: "inflight s' = filter (\<lambda>c. slot_of_call c \<noteq> fst ev) (inflight s)"
    by blast
  from inv c have k: "fst ev < length inc"
    and ceq: "c = (fst (inc ! fst ev), snd (inc ! fst ev), fst ev, clock (fst ev))"
    unfolding clean_inv_def by auto
  have res: "executor (fst (snd c)) (fst c) = result_of_call executor (inc ! fst ev)"
    by (subst (1 2) ceq) (simp add: result_of_call_def)
  have len: "length (cleanP s) = length inc" using inv by (simp add: clean_inv_def)
  have d: "distinct (map slot_of_call (inflight s))" using inv by (simp add: clean_inv_def)
  have slots: "slot_of_call ` set (inflight s') = slot_of_call ` set (inflight s) - {fst ev}"
    unfolding fl by auto
  have 1: "length (cleanP s') = length inc" using len by (simp add: cp)
  have 2: "distinct (map slot_of_call (inflight s'))"
    unfolding fl using d by (simp add: distinct_map_filter)
  have 3: "\<forall>c \<in> set (inflight s'). slot_of_call c < length inc
            \<and> c = (fst (inc ! slot_of_call c), snd (inc ! slot_of_call c), slot_of_call c,
                   clock (slot_of_call c))"
    unfolding fl using inv by (simp add: clean_inv_def)
  have 4: "\<forall>k < length inc. cleanP s' ! k =
            (if k \<in> slot_of_call ` set (inflight s') then None
             else Some (Fulfilled (result_of_call executor (inc ! k))))"
  proof (intro allI impI)
    fix j assume j: "j < length inc"
    from inv j have old: "cleanP s ! j =
            (if j \<in> slot_of_call ` set (inflight s) then None
             else Some (Fulfilled (result_of_call executor (inc ! j))))"
      by (simp add: clean_inv_def)
    show "cleanP s' ! j =
            (if j \<in> slot_of_call ` set (inflight s') then None
             else Some (Fulfilled (result_of_call executor (inc ! j))))"
    proof (cases "j = fst ev")
      case True
      then show ?thesis using j len by (simp add: cp slots res)
    next
      case False
      then show ?thesis using old by (simp add: cp slots)
    qed
  qed
  from length_filter_distinct_call [OF d c(1)] c(2)
  have 5: "Suc (length (inflight s')) = length (inflight s)" by (simp add: fl)
  from 1 2 3 4 5 show ?thesis unfolding clean_inv_def by blast
qed

lemma clean_inv_run:
  "clean_inv executor clock inc s \<Longrightarrow> clean_run status executor chalk evs s = Some s' \<Longrightarrow>
   clean_inv executor clock inc s' \<and> length (inflight s') + length evs = length (inflight s)"
proof (induction evs arbitrary: s)
  case Nil
  then show ?case by simp
next
  case (Cons ev evs)
  from Cons.prems(2) obtain s1 where s1: "clean_step status executor chalk ev s = Some s1"
    and r: "clean_run status executor chalk evs s1 = Some s'" by (auto split: option.splits)
  from clean_inv_step [OF Cons.prems(1) s1] Cons.IH [OF _ r] show ?case by simp
qed

lemma clean_all_inv_step:
  assumes inv: "clean_inv executor clock inc s" and a: "all_inv (all_cleanP s) (cleanP s)"
    and st: "clean_step status executor chalk ev s = Some s'"
  shows "all_inv (all_cleanP s') (cleanP s')"
proof -
  from clean_step_Some [OF st] obtain c where
    c: "c \<in> set (inflight s)" "slot_of_call c = fst ev" and
    cp: "cleanP s' = (cleanP s)[fst ev := Some (Fulfilled (executor (fst (snd c)) (fst c)))]" and
    al: "all_cleanP s' = Promise_all (all_cleanP s)
          ((cleanP s)[fst ev := Some (Fulfilled (executor (fst (snd c)) (fst c)))])"
    by blast
  from inv c have k: "fst ev < length inc" unfolding clean_inv_def by auto
  have "fst ev \<in> slot_of_call ` set (inflight s)" using c by (metis imageI)
  with inv k have "fst ev < length (cleanP s)" "cleanP s ! fst ev = None"
    unfolding clean_inv_def by simp_all
  from all_inv_update [OF a this] show ?thesis by (simp add: cp al)
qed

lemma clean_all_inv_run:
  "clean_inv executor clock inc s \<Longrightarrow> all_inv (all_cleanP s) (cleanP s) \<Longrightarrow>
   clean_run status executor chalk evs s = Some s' \<Longrightarrow> all_inv (all_cleanP s') (cleanP s')"
proof (induction evs arbitrary: s)
  case Nil
  then show ?case by simp
next
  case (Cons ev evs)
  from Cons.prems(3) obtain s1 where s1: "clean_step status executor chalk ev s = Some s1"
    and r: "clean_run status executor chalk evs s1 = Some s'" by (auto split: option.splits)
  from clean_inv_step [OF Cons.prems(1) s1] have "clean_inv executor clock inc s1" by simp
  from Cons.IH [OF this clean_all_inv_step [OF Cons.prems(1,2) s1] r] show ?case .
qed

lemma all_inv_all_fulfilled:
  assumes "all_inv a ps" "ps = map (\<lambda>r. Some (Fulfilled r)) rs"
  shows "a = Some (Fulfilled rs)"
proof -
  have fv: "fulfilled_values ps = Some rs" using assms(2) by (simp add: fulfilled_values_Some)
  have nr: "\<forall>e. Some (Rejected e) \<notin> set ps" unfolding assms(2) by auto
  show ?thesis
  proof (cases a)
    case None
    with assms(1) fv show ?thesis by (simp add: all_inv_def)
  next
    case (Some x)
    with assms(1) fv nr show ?thesis by (cases x) (auto simp: all_inv_def)
  qed
qed

lemma clean_done_results:
  assumes "clean_inv executor clock inc s" "all_inv (all_cleanP s) (cleanP s)" "inflight s = []"
  shows "all_cleanP s = Some (Fulfilled (map (result_of_call executor) inc))"
proof -
  from assms(1,3) have "\<forall>k<length inc. cleanP s ! k = Some (Fulfilled (result_of_call executor (inc ! k)))"
    and "length (cleanP s) = length inc" by (simp_all add: clean_inv_def)
  then have "cleanP s = map (\<lambda>r. Some (Fulfilled r)) (map (result_of_call executor) inc)"
    by (simp add: list_eq_iff_nth_eq)
  with assms(2) show ?thesis by (rule all_inv_all_fulfilled)
qed

lemma clean_pending:
  assumes "clean_inv executor clock inc s" "all_inv (all_cleanP s) (cleanP s)" "inflight s \<noteq> []"
  shows "all_cleanP s = None"
proof -
  from assms(3) obtain c where c: "c \<in> set (inflight s)" by (cases "inflight s") auto
  with assms(1) have k: "slot_of_call c < length inc" "cleanP s ! slot_of_call c = None"
    and len: "length (cleanP s) = length inc"
    unfolding clean_inv_def by auto
  have nr: "\<forall>e. Some (Rejected e) \<notin> set (cleanP s)"
  proof (intro allI notI)
    fix e assume "Some (Rejected e) \<in> set (cleanP s)"
    then obtain i where i: "i < length (cleanP s)" "cleanP s ! i = Some (Rejected e)"
      by (metis in_set_conv_nth)
    with assms(1) show False unfolding clean_inv_def by (auto split: if_splits)
  qed
  show ?thesis
  proof (cases "all_cleanP s")
    case None
    then show ?thesis .
  next
    case (Some x)
    show ?thesis
    proof (cases x)
      case (Fulfilled rs)
      with Some assms(2) have "cleanP s = map (\<lambda>r. Some (Fulfilled r)) rs"
        by (simp add: all_inv_def fulfilled_values_Some)
      with k len have False by (metis length_map nth_map option.distinct(1))
      then show ?thesis ..
    next
      case (Rejected e)
      with Some assms(2) nr show ?thesis by (simp add: all_inv_def)
    qed
  qed
qed

lemma clean_progress:
  assumes "inflight s \<noteq> []"
  shows "\<exists>ev s'. clean_step status executor chalk ev s = Some s'"
proof -
  from assms obtain c cs where cs: "inflight s = c # cs" by (cases "inflight s") auto
  then have "find (\<lambda>d. fst (snd (snd d)) = fst (snd (snd c))) (inflight s) = Some c" by simp
  then have "clean_step status executor chalk (fst (snd (snd c)), 0) s \<noteq> None"
    by (simp add: clean_step_def split: prod.splits)
  then show ?thesis by blast
qed

subsection \<open>The packages clean runs\<close>

lemma unnumber_calls: "map (\<lambda>c. (fst c, fst (snd c))) (number_calls clock k inc) = inc"
  by (induction inc arbitrary: k) auto

lemma clean_run_to_done:
  "length (inflight s) \<le> n \<Longrightarrow>
   \<exists>evs s'. clean_run status executor chalk evs s = Some s' \<and> inflight s' = []"
proof (induction n arbitrary: s)
  case 0
  then have "clean_run status executor chalk [] s = Some s \<and> inflight s = []" by simp
  then show ?case by blast
next
  case (Suc n)
  show ?case
  proof (cases "inflight s = []")
    case True
    then have "clean_run status executor chalk [] s = Some s \<and> inflight s = []" by simp
    then show ?thesis by blast
  next
    case False
    from clean_progress [OF this] obtain ev s1 where
      s1: "clean_step status executor chalk ev s = Some s1" by blast
    from clean_step_Some [OF s1] obtain c where c: "c \<in> set (inflight s)"
      and fl: "inflight s1 = filter (\<lambda>c. slot_of_call c \<noteq> fst ev) (inflight s)"
      and sl: "slot_of_call c = fst ev" by blast
    have "length (inflight s1) < length (inflight s)"
      unfolding fl using c sl by (simp add: length_filter_less)
    then have "length (inflight s1) \<le> n" using Suc.prems by simp
    from Suc.IH [OF this] obtain evs s' where
      "clean_run status executor chalk evs s1 = Some s'" "inflight s' = []" by blast
    with s1 have "clean_run status executor chalk (ev # evs) s = Some s' \<and> inflight s' = []"
      by simp
    then show ?thesis by blast
  qed
qed

lemma clean_script_of_iff:
  "clean_script_of pkg \<noteq> None \<longleftrightarrow>
   (\<exists>scripts script. json_scripts (packageJson pkg) = Some scripts
      \<and> scripts ''clean'' = Some script \<and> script \<noteq> [])"
  by (auto simp: clean_script_of_def split: option.splits)

text \<open>
  C3 (amended). For every list of packages whose manifests have a scripts object:
  \<open>clean\<close> runs an operation for exactly the packages whose script \<open>clean\<close> is a non-empty
  string, in the order of the list, with one promise each. A package without such a script
  is skipped. In every run the function has not returned while an operation is in flight
  and one of them can end; a run in which all have ended exists; and then the verdict
  returned is the one over the results of the included packages alone: false exactly when
  one of them has a truthy error indicator.
\<close>

theorem clean_runs_nonempty_clean_scripts:
  assumes "\<forall>pkg \<in> set packages. json_scripts (packageJson pkg) \<noteq> None"
  shows "(\<exists>s0. clean clock packages = Inr s0)
    \<and> (\<forall>s0. clean clock packages = Inr s0 \<longrightarrow>
        map (\<lambda>c. (fst c, fst (snd c))) (inflight s0) = included packages
      \<and> map fst (included packages) = filter (\<lambda>pkg. clean_script_of pkg \<noteq> None) packages
      \<and> (\<forall>pkg. clean_script_of pkg \<noteq> None \<longleftrightarrow>
            (\<exists>scripts script. json_scripts (packageJson pkg) = Some scripts
               \<and> scripts ''clean'' = Some script \<and> script \<noteq> []))
      \<and> length (cleanP s0) = length (included packages)
      \<and> (\<forall>evs s. clean_run status executor chalk evs s0 = Some s \<longrightarrow>
            length (cleanP s) = length (included packages)
            \<and> length (inflight s) + length evs = length (included packages)
            \<and> (inflight s \<noteq> [] \<longrightarrow> clean_returns s = None
                 \<and> (\<exists>ev s'. clean_step status executor chalk ev s = Some s'))
            \<and> (inflight s = [] \<longrightarrow> clean_returns s =
                  Some (Fulfilled (verdict (map (result_of_call executor) (included packages))))))
      \<and> (\<exists>evs s. clean_run status executor chalk evs s0 = Some s \<and> inflight s = [])
      \<and> (verdict (map (result_of_call executor) (included packages)) \<longleftrightarrow>
            (\<forall>c \<in> set (included packages). \<not> truthy (error (result_of_call executor c)))))"
proof (intro conjI allI impI)
  let ?inc = "included packages"
  let ?s0 = "\<lparr>numDone = 0, logged = [], cleanP = replicate (length ?inc) None,
          inflight = number_calls clock 0 ?inc,
          all_cleanP = Promise_all None (replicate (length ?inc) None)\<rparr>"
  have c0: "clean clock packages = Inr ?s0" using assms by (rule clean_ok)
  then show "\<exists>s0. clean clock packages = Inr s0" by (rule exI)
  fix s0 assume "clean clock packages = Inr s0"
  with c0 have s0: "s0 = ?s0" by simp
  have i0: "clean_inv executor clock ?inc s0" unfolding s0 by (rule clean_inv_init)
  have a0: "all_inv (all_cleanP s0) (cleanP s0)" unfolding s0 by (simp add: all_inv_init)
  show "map (\<lambda>c. (fst c, fst (snd c))) (inflight s0) = ?inc"
    unfolding s0 by (simp add: unnumber_calls)
  show "map fst ?inc = filter (\<lambda>pkg. clean_script_of pkg \<noteq> None) packages"
    by (rule included_filter)
  show "length (cleanP s0) = length ?inc" unfolding s0 by simp
  show "\<exists>evs s. clean_run status executor chalk evs s0 = Some s \<and> inflight s = []"
    by (rule clean_run_to_done [OF le_refl])
  show "verdict (map (result_of_call executor) ?inc) \<longleftrightarrow>
            (\<forall>c \<in> set ?inc. \<not> truthy (error (result_of_call executor c)))"
    by (simp add: verdict_def some_iff)
  { fix pkg
    show "clean_script_of pkg \<noteq> None \<longleftrightarrow>
            (\<exists>scripts script. json_scripts (packageJson pkg) = Some scripts
               \<and> scripts ''clean'' = Some script \<and> script \<noteq> [])"
      by (rule clean_script_of_iff) }
  fix evs s assume r: "clean_run status executor chalk evs s0 = Some s"
  from clean_inv_run [OF i0 r] have inv: "clean_inv executor clock ?inc s"
    and "length (inflight s) + length evs = length (inflight s0)" by simp_all
  then show m: "length (inflight s) + length evs = length ?inc"
    unfolding s0 by (simp add: length_number_calls)
  from clean_all_inv_run [OF i0 a0 r] have ai: "all_inv (all_cleanP s) (cleanP s)" .
  show "length (cleanP s) = length ?inc" using inv by (simp add: clean_inv_def)
  { assume n: "inflight s \<noteq> []"
    from clean_pending [OF inv ai n] show "clean_returns s = None"
      by (simp add: clean_returns_def await_verdict_def)
    from n show "\<exists>ev s'. clean_step status executor chalk ev s = Some s'"
      by (rule clean_progress) }
  { assume "inflight s = []"
    from clean_done_results [OF inv ai this]
    show "clean_returns s = Some (Fulfilled (verdict (map (result_of_call executor) ?inc)))"
      by (simp add: clean_returns_def await_verdict_def) }
qed

text \<open>
  A package whose scripts declare \<open>clean\<close> as the empty string: the entry is declared,
  and \<open>clean\<close> runs no operation for the package.
\<close>

theorem clean_empty_script_counterexample:
  "''clean'' \<in> dom [''clean'' \<mapsto> '''']
   \<and> clean int [pkg_with 0 ''a'' (Some [''clean'' \<mapsto> ''''])]
     = Inr \<lparr>numDone = 0, logged = [], cleanP = [], inflight = [],
            all_cleanP = Some (Fulfilled [])\<rparr>"
  by (simp add: clean_def getScript_clean pkg_with_def Package_new_def Promise_all_def)

lemma pkg_with_scripts: "json_scripts (packageJson (pkg_with i n scripts)) = scripts"
  by (simp add: pkg_with_def Package_new_def)

lemma pkg_with_name: "nameColored plain (pkg_with i n scripts) = n"
  by (simp add: pkg_with_def Package_new_def nameColored_def color_def name_def plain_def)

theorem clean_runs_nonempty_clean_scripts_witness:
  "clean int
     [pkg_with 0 ''a'' (Some [''clean'' \<mapsto> ''rimraf dist'']),
      pkg_with 1 ''b'' (Some [''build'' \<mapsto> ''tsc'']),
      pkg_with 2 ''c'' (Some [''clean'' \<mapsto> ''exit 1'']),
      pkg_with 3 ''d'' (Some Map.empty),
      pkg_with 4 ''e'' (Some [''clean'' \<mapsto> ''rimraf lib''])]
   = Inr \<lparr>numDone = 0, logged = [], cleanP = [None, None, None],
       inflight =
         [(pkg_with 0 ''a'' (Some [''clean'' \<mapsto> ''rimraf dist'']), ''rimraf dist'', 0, 0),
          (pkg_with 2 ''c'' (Some [''clean'' \<mapsto> ''exit 1'']), ''exit 1'', 1, 1),
          (pkg_with 4 ''e'' (Some [''clean'' \<mapsto> ''rimraf lib'']), ''rimraf lib'', 2, 2)],
       all_cleanP = None\<rparr>
   \<and> map_option clean_returns
       (clean_run False run_script plain [(2, 5), (0, 6), (1, 9)]
         \<lparr>numDone = 0, logged = [], cleanP = [None, None, None],
          inflight =
           [(pkg_with 0 ''a'' (Some [''clean'' \<mapsto> ''rimraf dist'']), ''rimraf dist'', 0, 0),
            (pkg_with 2 ''c'' (Some [''clean'' \<mapsto> ''exit 1'']), ''exit 1'', 1, 1),
            (pkg_with 4 ''e'' (Some [''clean'' \<mapsto> ''rimraf lib'']), ''rimraf lib'', 2, 2)],
          all_cleanP = None\<rparr>)
     = Some (Some (Fulfilled False))"
proof -
  let ?pkgs = "[pkg_with 0 ''a'' (Some [''clean'' \<mapsto> ''rimraf dist'']),
      pkg_with 1 ''b'' (Some [''build'' \<mapsto> ''tsc'']),
      pkg_with 2 ''c'' (Some [''clean'' \<mapsto> ''exit 1'']),
      pkg_with 3 ''d'' (Some Map.empty),
      pkg_with 4 ''e'' (Some [''clean'' \<mapsto> ''rimraf lib''])]"
  have h: "\<forall>pkg \<in> set ?pkgs. json_scripts (packageJson pkg) \<noteq> None"
    by (simp add: pkg_with_scripts)
  have inc: "included ?pkgs =
     [(pkg_with 0 ''a'' (Some [''clean'' \<mapsto> ''rimraf dist'']), ''rimraf dist''),
      (pkg_with 2 ''c'' (Some [''clean'' \<mapsto> ''exit 1'']), ''exit 1''),
      (pkg_with 4 ''e'' (Some [''clean'' \<mapsto> ''rimraf lib'']), ''rimraf lib'')]"
    by (simp add: clean_script_of_def pkg_with_scripts)
  have c: "clean int ?pkgs
   = Inr \<lparr>numDone = 0, logged = [], cleanP = [None, None, None],
       inflight =
         [(pkg_with 0 ''a'' (Some [''clean'' \<mapsto> ''rimraf dist'']), ''rimraf dist'', 0, 0),
          (pkg_with 2 ''c'' (Some [''clean'' \<mapsto> ''exit 1'']), ''exit 1'', 1, 1),
          (pkg_with 4 ''e'' (Some [''clean'' \<mapsto> ''rimraf lib'']), ''rimraf lib'', 2, 2)],
       all_cleanP = None\<rparr>"
    by (simp add: clean_def getScript_clean pkg_with_scripts Promise_all_def)
  have v: "verdict (map (result_of_call run_script) (included ?pkgs)) = False"
    unfolding inc by (simp add: verdict_def result_of_call_def run_script_def)
  let ?S0 = "\<lparr>numDone = 0, logged = [], cleanP = [None, None, None],
       inflight =
         [(pkg_with 0 ''a'' (Some [''clean'' \<mapsto> ''rimraf dist'']), ''rimraf dist'', 0, 0),
          (pkg_with 2 ''c'' (Some [''clean'' \<mapsto> ''exit 1'']), ''exit 1'', 1, 1),
          (pkg_with 4 ''e'' (Some [''clean'' \<mapsto> ''rimraf lib'']), ''rimraf lib'', 2, 2)],
       all_cleanP = None\<rparr>"
  note t = clean_runs_nonempty_clean_scripts [OF h, of int False run_script plain,
      THEN conjunct2, THEN spec, THEN mp, OF c]
  note runs = t [THEN conjunct2, THEN conjunct2, THEN conjunct2, THEN conjunct2, THEN conjunct1]
  obtain s where r: "clean_run False run_script plain [(2, 5), (0, 6), (1, 9)] ?S0 = Some s"
    and e: "inflight s = []"
    by (simp add: clean_step_def execCleanScript_def Let_def)
  from runs [THEN spec, THEN spec, THEN mp, OF r] e v
  have "clean_returns s = Some (Fulfilled False)" by simp
  with r c show ?thesis by simp
qed

subsection \<open>The completion counter\<close>

lemma numDone_step:
  assumes "step K exec cb ev s = Some s'"
  shows "numDone s \<le> numDone s' \<and> numDone s' \<le> Suc (numDone s)"
proof (cases ev)
  case (Process now)
  with step_Process [of K exec cb now s s'] assms show ?thesis by auto
next
  case (Settle slot now)
  with assms have "step K exec cb (Settle slot now) s = Some s'" by simp
  from step_Settle [OF this] obtain w where "w \<in> set (workers s)" and
    "s' = worker_done slot (exec (fst w)) (snd (timedExec exec cb (fst w) (snd (snd w)) now s))"
    by blast
  from this(2) show ?thesis
    by (simp add: worker_done_fields timedExec_def split: option.splits settled.splits)
qed

lemma clean_loop_Inr:
  "clean_loop clock packages s = Inr s' \<Longrightarrow>
   \<forall>pkg \<in> set packages. json_scripts (packageJson pkg) \<noteq> None"
proof (induction packages arbitrary: s)
  case Nil
  then show ?case by simp
next
  case (Cons pkg rest)
  then show ?case
    by (auto simp: getScript_clean split: option.splits if_splits)
qed

lemma clean_Inr:
  "clean clock packages = Inr s \<Longrightarrow> \<forall>pkg \<in> set packages. json_scripts (packageJson pkg) \<noteq> None"
  by (auto simp: clean_def split: sum.splits dest: clean_loop_Inr)

lemma clean_report_step:
  assumes inv: "clean_inv executor clock inc s" and r: "clean_report_inv s"
    and st: "clean_step True executor chalk ev s = Some s'"
  shows "clean_report_inv s' \<and> numDone s' = Suc (numDone s)"
proof -
  from clean_step_Some [OF st] obtain c where
    c: "c \<in> set (inflight s)" "slot_of_call c = fst ev" and
    cp: "cleanP s' = (cleanP s)[fst ev := Some (Fulfilled (executor (fst (snd c)) (fst c)))]" and
    nd: "numDone s' = numDone s + 1" and
    lg: "logged s' = logged s @
               [\<lparr>sl_index = numDone s + 1, sl_total = length (cleanP s),
                 sl_label = nameColored chalk (fst c) @ '': '' @ fst (snd c),
                 sl_elapsed = snd ev - snd (snd (snd c))\<rparr>]"
    by auto
  from inv c have k: "fst ev < length inc" unfolding clean_inv_def by auto
  have "fst ev \<in> slot_of_call ` set (inflight s)" using c by (metis imageI)
  with inv k have p: "fst ev < length (cleanP s)" "cleanP s ! fst ev = None"
    unfolding clean_inv_def by simp_all
  note cnt = count_fulfilled_update [OF p, of "Fulfilled (executor (fst (snd c)) (fst c))"]
  from r cnt show ?thesis by (simp add: clean_report_inv_def cp nd lg)
qed

lemma clean_report_run:
  "clean_inv executor clock inc s \<Longrightarrow> clean_report_inv s \<Longrightarrow>
   clean_run True executor chalk evs s = Some s' \<Longrightarrow>
   clean_report_inv s' \<and> numDone s' = numDone s + length evs"
proof (induction evs arbitrary: s)
  case Nil
  then show ?case by simp
next
  case (Cons ev evs)
  from Cons.prems(3) obtain s1 where s1: "clean_step True executor chalk ev s = Some s1"
    and r: "clean_run True executor chalk evs s1 = Some s'" by (auto split: option.splits)
  from clean_inv_step [OF Cons.prems(1) s1] have i1: "clean_inv executor clock inc s1" by simp
  from clean_report_step [OF Cons.prems(1,2) s1] have r1: "clean_report_inv s1"
    and n1: "numDone s1 = Suc (numDone s)" by simp_all
  from Cons.IH [OF i1 r1 r] n1 show ?case by simp
qed

text \<open>
  C5 (amended). When progress is reported (a message callback in \<open>queueExec\<close>,
  \<open>status = true\<close> in \<open>clean\<close>): the indices logged are \<open>1, \<dots>, numDone\<close> in this order,
  with no duplicate and none skipped; \<open>numDone\<close> is the number of operations that have
  returned a result; a step leaves it as it is or adds one; and it is \<open>N\<close> when all \<open>N\<close>
  operations have returned a result.
\<close>

theorem counter_counts_reported_completions:
  "(run K exec (Some label) evs (queueExec items) = Some s \<longrightarrow>
      map sl_index (logged s) = [1..<Suc (numDone s)]
      \<and> numDone s = length (filter is_fulfilled (promises s))
      \<and> (\<forall>ev s'. step K exec (Some label) ev s = Some s' \<longrightarrow>
            numDone s \<le> numDone s' \<and> numDone s' \<le> Suc (numDone s))
      \<and> (idle s \<and> (\<forall>item \<in> set items. is_fulfilled (Some (exec item))) \<longrightarrow>
            numDone s = length items))
   \<and> (clean clock packages = Inr c0 \<and> clean_run True executor chalk cevs c0 = Some c \<longrightarrow>
      map sl_index (logged c) = [1..<Suc (numDone c)]
      \<and> numDone c = length (filter is_fulfilled (cleanP c))
      \<and> numDone c = length cevs
      \<and> (inflight c = [] \<longrightarrow> numDone c = length (cleanP c)))"
proof (intro conjI impI allI)
  assume r: "run K exec (Some label) evs (queueExec items) = Some s"
  have inv: "queue_inv items exec s" using queue_inv_init r by (rule queue_inv_run)
  have rep: "report_inv s" using queue_inv_init report_inv_queueExec r by (rule report_inv_run)
  from rep show "map sl_index (logged s) = [1..<Suc (numDone s)]"
    unfolding report_inv_def by (rule conjunct1)
  from rep show nd: "numDone s = length (filter is_fulfilled (promises s))"
    unfolding report_inv_def by blast
  { fix ev s' assume st: "step K exec (Some label) ev s = Some s'"
    from numDone_step [OF st] show "numDone s \<le> numDone s'" and "numDone s' \<le> Suc (numDone s)"
      by simp_all }
  assume "idle s \<and> (\<forall>item \<in> set items. is_fulfilled (Some (exec item)))"
  then have i: "idle s" and f: "\<forall>item \<in> set items. is_fulfilled (Some (exec item))" by simp_all
  from idle_promises [OF inv i] have "promises s = map (\<lambda>item. Some (exec item)) items" .
  with f have "filter is_fulfilled (promises s) = promises s" by (simp add: filter_id_conv)
  with nd inv show "numDone s = length items" by (simp add: queue_inv_def)
next
  assume "clean clock packages = Inr c0 \<and> clean_run True executor chalk cevs c0 = Some c"
  then have c0: "clean clock packages = Inr c0"
    and r: "clean_run True executor chalk cevs c0 = Some c" by simp_all
  let ?inc = "included packages"
  from clean_ok [OF clean_Inr [OF c0], of clock] c0
  have s0: "c0 = \<lparr>numDone = 0, logged = [], cleanP = replicate (length ?inc) None,
          inflight = number_calls clock 0 ?inc,
          all_cleanP = Promise_all None (replicate (length ?inc) None)\<rparr>" by simp
  have i0: "clean_inv executor clock ?inc c0" unfolding s0 by (rule clean_inv_init)
  have r0: "clean_report_inv c0" unfolding s0 by (simp add: clean_report_inv_def)
  from clean_report_run [OF i0 r0 r] have rep: "clean_report_inv c"
    and n: "numDone c = numDone c0 + length cevs" by simp_all
  from rep show "map sl_index (logged c) = [1..<Suc (numDone c)]"
    unfolding clean_report_inv_def by (rule conjunct1)
  from rep show "numDone c = length (filter is_fulfilled (cleanP c))"
    unfolding clean_report_inv_def by (rule conjunct2)
  from n show nl: "numDone c = length cevs" unfolding s0 by simp
  from clean_inv_run [OF i0 r] have inv: "clean_inv executor clock ?inc c"
    and m: "length (inflight c) + length cevs = length (inflight c0)" by simp_all
  assume "inflight c = []"
  with m have "length cevs = length ?inc" unfolding s0 by (simp add: length_number_calls)
  with nl inv show "numDone c = length (cleanP c)" by (simp add: clean_inv_def)
qed

text \<open>
  \<open>clean\<close> with \<open>status = false\<close>: after the one operation has completed the counter is
  still 0.
\<close>

theorem clean_without_status_counterexample:
  "clean int [pkg_with 0 ''a'' (Some [''clean'' \<mapsto> ''rimraf dist''])]
   = Inr \<lparr>numDone = 0, logged = [], cleanP = [None],
       inflight = [(pkg_with 0 ''a'' (Some [''clean'' \<mapsto> ''rimraf dist'']), ''rimraf dist'', 0, 0)],
       all_cleanP = None\<rparr>
   \<and> clean_run False run_script plain [(0, 9)]
       \<lparr>numDone = 0, logged = [], cleanP = [None],
        inflight = [(pkg_with 0 ''a'' (Some [''clean'' \<mapsto> ''rimraf dist'']), ''rimraf dist'', 0, 0)],
        all_cleanP = None\<rparr>
   = Some \<lparr>numDone = 0, logged = [],
       cleanP = [Some (Fulfilled \<lparr>error = JNull, stdout = [], stderr = []\<rparr>)],
       inflight = [],
       all_cleanP = Some (Fulfilled [\<lparr>error = JNull, stdout = [], stderr = []\<rparr>])\<rparr>"
  by (simp add: clean_def getScript_clean pkg_with_scripts Promise_all_def clean_step_def
      execCleanScript_def Let_def run_script_def)

theorem counter_counts_reported_completions_witness:
  "map_option (\<lambda>s. (numDone s, map format_status (logged s)))
     (run 2 (exec_failing_on ''b'') (Some id)
        [Process 0, Process 3, Settle 1 5, Process 6, Settle 2 1234, Settle 0 2500]
        (queueExec [''a'', ''b'', ''c'']))
   = Some (2, [''[1/3] c - 1.228s'', ''[2/3] a - 2.500s''])
   \<and> map_option (\<lambda>s. (numDone s, map format_status (logged s)))
     (clean_run True run_script plain [(1, 40), (0, 1001)]
       \<lparr>numDone = 0, logged = [], cleanP = [None, None],
        inflight = [(pkg_with 0 ''a'' (Some [''clean'' \<mapsto> ''rimraf dist'']), ''rimraf dist'', 0, 0),
                    (pkg_with 1 ''b'' (Some [''clean'' \<mapsto> ''exit 1'']), ''exit 1'', 1, 1)],
        all_cleanP = None\<rparr>)
   = Some (2, [''[1/2] b: exit 1 - 0.039s'', ''[2/2] a: rimraf dist - 1.001s''])"
proof -
  obtain s where r: "run 2 (exec_failing_on ''b'') (Some id)
        [Process 0, Process 3, Settle 1 5, Process 6, Settle 2 1234, Settle 0 2500]
        (queueExec [''a'', ''b'', ''c'']) = Some s"
    and l: "map format_status (logged s) = [''[1/3] c - 1.228s'', ''[2/3] a - 2.500s'']"
    and n: "numDone s = 2"
    by (simp add: queueExec_state timedExec_def worker_done_def Promise_all_def upt_rec
        exec_failing_on_def format_status_def toFixed3_def show_nat.simps digit_def)
  have c0: "clean int [pkg_with 0 ''a'' (Some [''clean'' \<mapsto> ''rimraf dist'']),
                      pkg_with 1 ''b'' (Some [''clean'' \<mapsto> ''exit 1''])]
    = Inr \<lparr>numDone = 0, logged = [], cleanP = [None, None],
        inflight = [(pkg_with 0 ''a'' (Some [''clean'' \<mapsto> ''rimraf dist'']), ''rimraf dist'', 0, 0),
                    (pkg_with 1 ''b'' (Some [''clean'' \<mapsto> ''exit 1'']), ''exit 1'', 1, 1)],
        all_cleanP = None\<rparr>"
    by (simp add: clean_def getScript_clean pkg_with_scripts Promise_all_def)
  obtain c where cr: "clean_run True run_script plain [(1, 40), (0, 1001)]
       \<lparr>numDone = 0, logged = [], cleanP = [None, None],
        inflight = [(pkg_with 0 ''a'' (Some [''clean'' \<mapsto> ''rimraf dist'']), ''rimraf dist'', 0, 0),
                    (pkg_with 1 ''b'' (Some [''clean'' \<mapsto> ''exit 1'']), ''exit 1'', 1, 1)],
        all_cleanP = None\<rparr> = Some c"
    and cl: "map format_status (logged c) = [''[1/2] b: exit 1 - 0.039s'', ''[2/2] a: rimraf dist - 1.001s'']"
    by (simp add: clean_step_def execCleanScript_def Let_def pkg_with_name
        format_status_def toFixed3_def show_nat.simps digit_def)
  note t = counter_counts_reported_completions [of 2 "exec_failing_on ''b''" id _ "[''a'', ''b'', ''c'']" s
      int _ _ run_script plain "[(1, 40), (0, 1001)]" c]
  from t [THEN conjunct1, THEN mp, OF r] have "map sl_index (logged s) = [1..<Suc (numDone s)]"
    by (rule conjunct1)
  from t [THEN conjunct2, THEN mp, OF conjI, OF c0 cr] have "numDone c = length [(1::nat, 40::int), (0, 1001)]"
    by simp
  with r l n cr cl show ?thesis by simp
qed

subsection \<open>The sequential loop\<close>

lemma loop_trace_prefix:
  "\<exists>n \<le> length packages. fst (forEachAsync_loop exec packages results) =
      concat (map (\<lambda>pkg. [Enter pkg, Leave pkg]) (take n packages))"
proof (induction packages arbitrary: results)
  case Nil
  then show ?case by simp
next
  case (Cons pkg rest)
  show ?case
  proof (cases "exec pkg")
    case (Rejected e)
    then have "fst (forEachAsync_loop exec (pkg # rest) results) =
      concat (map (\<lambda>pkg. [Enter pkg, Leave pkg]) (take 1 (pkg # rest)))" by simp
    moreover have "1 \<le> length (pkg # rest)" by simp
    ultimately show ?thesis by blast
  next
    case (Fulfilled r)
    from Cons [of "results @ [r]"] obtain n where n: "n \<le> length rest"
      and t: "fst (forEachAsync_loop exec rest (results @ [r])) =
         concat (map (\<lambda>pkg. [Enter pkg, Leave pkg]) (take n rest))" by blast
    from Fulfilled t have "fst (forEachAsync_loop exec (pkg # rest) results) =
      concat (map (\<lambda>pkg. [Enter pkg, Leave pkg]) (take (Suc n) (pkg # rest)))"
      by (auto split: prod.splits)
    moreover have "Suc n \<le> length (pkg # rest)" using n by simp
    ultimately show ?thesis by blast
  qed
qed

lemma loop_all_fulfilled:
  "map exec packages = map Fulfilled rs \<Longrightarrow>
   forEachAsync_loop exec packages results =
     (concat (map (\<lambda>pkg. [Enter pkg, Leave pkg]) packages), Fulfilled (results @ rs))"
proof (induction packages arbitrary: results rs)
  case Nil
  then show ?case by simp
next
  case (Cons pkg rest)
  from Cons.prems obtain r rs' where rs: "rs = r # rs'" and e: "exec pkg = Fulfilled r"
    and m: "map exec rest = map Fulfilled rs'" by (cases rs) auto
  from Cons.IH [OF m, of "results @ [r]"] e rs show ?case by simp
qed

lemma loop_first_rejection:
  "map exec done = map Fulfilled rs \<Longrightarrow> exec pkg = Rejected e \<Longrightarrow>
   forEachAsync_loop exec (done @ pkg # rest) results =
     (concat (map (\<lambda>pkg. [Enter pkg, Leave pkg]) (done @ [pkg])), Rejected e)"
proof (induction "done" arbitrary: results rs)
  case Nil
  then show ?case by simp
next
  case (Cons p ps)
  from Cons.prems(1) obtain r rs' where rs: "rs = r # rs'" and e: "exec p = Fulfilled r"
    and m: "map exec ps = map Fulfilled rs'" by (cases rs) auto
  from Cons.IH [OF m Cons.prems(2), of "results @ [r]"] e show ?case by simp
qed

text \<open>
  C7. \<open>forEachAsync\<close> with \<open>parallel = false\<close> calls the operation on one package at a
  time in collection order: every call is left before the next is entered. When every
  operation returns a result, whatever failure the result carries, all packages are run
  and the returned array lists the results in collection order. (An operation that
  rejects ends the loop with its rejection.)
\<close>

theorem forEachAsync_sequential:
  "(\<exists>n \<le> length packages. \<exists>outcome. forEachAsync chalk packages exec False message =
        Inr (concat (map (\<lambda>pkg. [Enter pkg, Leave pkg]) (take n packages)), outcome))
   \<and> (map exec packages = map Fulfilled rs \<longrightarrow>
        forEachAsync chalk packages exec False message =
          Inr (concat (map (\<lambda>pkg. [Enter pkg, Leave pkg]) packages), Fulfilled rs))
   \<and> (packages = before @ pkg # rest \<and> map exec before = map Fulfilled rs' \<and> exec pkg = Rejected e \<longrightarrow>
        forEachAsync chalk packages exec False message =
          Inr (concat (map (\<lambda>pkg. [Enter pkg, Leave pkg]) (before @ [pkg])), Rejected e))"
proof (intro conjI impI)
  from loop_trace_prefix [of packages exec "[]"] obtain n where n: "n \<le> length packages"
    and t: "fst (forEachAsync_loop exec packages []) =
      concat (map (\<lambda>pkg. [Enter pkg, Leave pkg]) (take n packages))" by blast
  from t have "forEachAsync chalk packages exec False message =
        Inr (concat (map (\<lambda>pkg. [Enter pkg, Leave pkg]) (take n packages)),
             snd (forEachAsync_loop exec packages []))"
    by (simp add: forEachAsync_def prod_eq_iff)
  with n show "\<exists>n \<le> length packages. \<exists>outcome. forEachAsync chalk packages exec False message =
        Inr (concat (map (\<lambda>pkg. [Enter pkg, Leave pkg]) (take n packages)), outcome)"
    by blast
next
  assume "map exec packages = map Fulfilled rs"
  from loop_all_fulfilled [OF this, of "[]"]
  show "forEachAsync chalk packages exec False message =
          Inr (concat (map (\<lambda>pkg. [Enter pkg, Leave pkg]) packages), Fulfilled rs)"
    by (simp add: forEachAsync_def)
next
  assume "packages = before @ pkg # rest \<and> map exec before = map Fulfilled rs' \<and> exec pkg = Rejected e"
  then have p: "packages = before @ pkg # rest" and m: "map exec before = map Fulfilled rs'"
    and e: "exec pkg = Rejected e" by simp_all
  from loop_first_rejection [OF m e, of rest "[]"]
  show "forEachAsync chalk packages exec False message =
          Inr (concat (map (\<lambda>pkg. [Enter pkg, Leave pkg]) (before @ [pkg])), Rejected e)"
    unfolding p by (simp add: forEachAsync_def)
qed

theorem forEachAsync_sequential_witness:
  "forEachAsync plain
     [pkg_with 0 ''a'' (Some [''clean'' \<mapsto> ''exit 1'']),
      pkg_with 1 ''b'' (Some [''clean'' \<mapsto> ''rimraf dist''])] run_clean False None
   = Inr ([Enter (pkg_with 0 ''a'' (Some [''clean'' \<mapsto> ''exit 1''])),
           Leave (pkg_with 0 ''a'' (Some [''clean'' \<mapsto> ''exit 1''])),
           Enter (pkg_with 1 ''b'' (Some [''clean'' \<mapsto> ''rimraf dist''])),
           Leave (pkg_with 1 ''b'' (Some [''clean'' \<mapsto> ''rimraf dist'']))],
          Fulfilled [\<lparr>error = JObj ''Command failed: exit 1'', stdout = [], stderr = []\<rparr>,
                     \<lparr>error = JNull, stdout = [], stderr = []\<rparr>])
   \<and> forEachAsync plain
     [pkg_with 0 ''a'' None,
      pkg_with 1 ''b'' (Some [''clean'' \<mapsto> ''rimraf dist''])] run_clean False None
   = Inr ([Enter (pkg_with 0 ''a'' None), Leave (pkg_with 0 ''a'' None)], Rejected TypeError)"
proof -
  have m: "map run_clean [pkg_with 0 ''a'' (Some [''clean'' \<mapsto> ''exit 1'']),
      pkg_with 1 ''b'' (Some [''clean'' \<mapsto> ''rimraf dist''])]
    = map Fulfilled [\<lparr>error = JObj ''Command failed: exit 1'', stdout = [], stderr = []\<rparr>,
                     \<lparr>error = JNull, stdout = [], stderr = []\<rparr>]"
    by (simp add: run_clean_def getScript_clean pkg_with_scripts run_script_def)
  have p: "[pkg_with 0 ''a'' None, pkg_with 1 ''b'' (Some [''clean'' \<mapsto> ''rimraf dist''])]
      = [] @ pkg_with 0 ''a'' None # [pkg_with 1 ''b'' (Some [''clean'' \<mapsto> ''rimraf dist''])]
    \<and> map run_clean [] = map Fulfilled []
    \<and> run_clean (pkg_with 0 ''a'' None) = Rejected TypeError"
    by (simp add: run_clean_def getScript_clean pkg_with_scripts)
  from forEachAsync_sequential [where chalk = plain and message = None, THEN conjunct2, THEN conjunct1, THEN mp, OF m]
    forEachAsync_sequential [where chalk = plain and message = None, THEN conjunct2, THEN conjunct2, THEN mp, OF p]
  show ?thesis by simp
qed

theorem timedExec_reports_each_completion_witness:
  "timedExec Fulfilled None ''a'' 0 5 (queueExec [''a'']) = (Fulfilled ''a'', queueExec [''a''])
   \<and> map_option (\<lambda>s. map format_status (logged s))
       (run 2 Fulfilled (Some id) [Process 0, Process 3, Settle 1 1500, Settle 0 62003]
          (queueExec [''a'', ''b'', ''c'']))
     = Some [''[1/3] b - 1.497s'', ''[2/3] a - 62.003s'']
   \<and> map_option logged
       (run 2 Fulfilled None [Process 0, Process 3, Settle 1 1500, Settle 0 62003]
          (queueExec [''a'', ''b'', ''c'']))
     = Some []"
proof -
  note t = timedExec_reports_each_completion [where exec = Fulfilled and item = "''a''"
      and startTime = 0 and now = 5 and ?s0.0 = "queueExec [''a'']" and K = 2
      and evs = "[Process 0, Process 3, Settle 1 1500, Settle 0 62003]"
      and items = "[''a'', ''b'', ''c'']"]
  obtain s :: "(string, string) queue_state" where
    r: "run 2 Fulfilled None [Process 0, Process 3, Settle 1 1500, Settle 0 62003]
          (queueExec [''a'', ''b'', ''c'']) = Some s"
    by (simp add: queueExec_state timedExec_def worker_done_def Promise_all_def upt_rec)
  from t [THEN conjunct2, THEN conjunct1, THEN mp, OF r] have "logged s = []" by simp
  with r have 3: "map_option logged
       (run 2 Fulfilled None [Process 0, Process 3, Settle 1 1500, Settle 0 62003]
          (queueExec [''a'', ''b'', ''c''])) = Some []"
    by simp
  have 2: "map_option (\<lambda>s. map format_status (logged s))
       (run 2 Fulfilled (Some id) [Process 0, Process 3, Settle 1 1500, Settle 0 62003]
          (queueExec [''a'', ''b'', ''c'']))
     = Some [''[1/3] b - 1.497s'', ''[2/3] a - 62.003s'']"
    by (simp add: queueExec_state timedExec_def worker_done_def Promise_all_def upt_rec
        format_status_def toFixed3_def show_nat.simps digit_def)
  from t [THEN conjunct1] 2 3 show ?thesis by simp
qed

end
